theory Spec2Isabelle
  imports Main "HOL-Library.Word"
begin

section \<open>The program: \<open>src/bellman_ford.cc\<close>\<close>

text \<open>
  The C++ type \<open>int\<close> is a 32-bit two's complement integer: a \<open>32 word\<close>, read with
  \<open>sint\<close> and compared with the signed orders \<open><s\<close> and \<open>\<le>s\<close>. The sum
  \<open>dist[u] + w\<close> is word addition, so a sum that leaves the range of \<open>int\<close> wraps
  around (the C++ standard leaves signed overflow undefined; two's complement wrap-around
  is what the arithmetic of the usual targets does).
\<close>

type_synonym int32 = "32 word"

text \<open>An edge is a \<open>tuple<int, int, int>\<close>: \<open>(u, v, w)\<close>.\<close>

type_synonym edge = "int32 \<times> int32 \<times> int32"

text \<open>\<open>const int INF = 1e9;\<close> (the name \<open>INF\<close> is taken in HOL, hence \<open>INF'\<close>)\<close>

definition INF' :: int32 where
  "INF' = 1000000000"

text \<open>
  Two things can go wrong in \<open>bellmanFord\<close>, and neither is an error the function raises
  itself. \<open>dist.assign(V, INF)\<close> converts a negative \<open>V\<close> to a \<open>size_t\<close> beyond
  \<open>max_size()\<close> and the vector throws (\<open>std::length_error\<close>; \<open>std::bad_alloc\<close> in
  some older libraries). \<open>dist[i]\<close> with \<open>i\<close>
  outside the vector is an unchecked access with undefined behaviour: the model stops
  there with \<open>UndefinedBehaviour\<close>, which marks that the C++ program has no defined
  result (no exception is thrown).
\<close>

datatype failure = LengthError | UndefinedBehaviour

text \<open>
  \<open>dist[i]\<close> for an \<open>int\<close> index: the index is converted to \<open>size_t\<close>, so the access is
  inside the vector when \<open>0 \<le> i < dist.size()\<close>, and then it is the element \<open>slot i\<close>.
\<close>

definition slot :: "int32 \<Rightarrow> nat" where
  "slot i = nat (sint i)"

definition in_range :: "int32 list \<Rightarrow> int32 \<Rightarrow> bool" where
  "in_range dist i \<longleftrightarrow> 0 \<le> sint i \<and> nat (sint i) < length dist"

text \<open>
  The test of lines 34 and 43: \<open>dist[u] != INF && dist[u] + w < dist[v]\<close>. \<open>&&\<close> does
  not read \<open>dist[v]\<close> when \<open>dist[u]\<close> is \<open>INF\<close>.
\<close>

fun improves :: "int32 list \<Rightarrow> edge \<Rightarrow> failure + bool" where
  "improves dist (u, v, w) =
     (if \<not> in_range dist u then Inl UndefinedBehaviour
      else if dist ! slot u \<noteq> INF' then
        (if \<not> in_range dist v then Inl UndefinedBehaviour
         else Inr (dist ! slot u + w <s dist ! slot v))
      else Inr False)"

text \<open>The body of the inner loop, lines 32 to 36: one relaxation step.\<close>

fun relax :: "edge \<Rightarrow> int32 list \<Rightarrow> failure + int32 list" where
  "relax (u, v, w) dist =
     (case improves dist (u, v, w) of
        Inl f \<Rightarrow> Inl f
      | Inr True \<Rightarrow> Inr (dist[slot v := dist ! slot u + w])
      | Inr False \<Rightarrow> Inr dist)"

text \<open>The inner loop, lines 31 to 37: one pass over the edge list, in its order.\<close>

fun relaxEdges :: "edge list \<Rightarrow> int32 list \<Rightarrow> failure + int32 list" where
  "relaxEdges [] dist = Inr dist"
| "relaxEdges (e # es) dist =
     (case relax e dist of Inl f \<Rightarrow> Inl f | Inr dist' \<Rightarrow> relaxEdges es dist')"

text \<open>
  The outer loop, lines 30 to 38: \<open>i\<close> runs from \<open>1\<close> to \<open>V - 1\<close>, so the body runs
  \<open>n\<close> times, \<open>n\<close> the number \<open>V - 1\<close> (no round when \<open>V - 1 \<le> 0\<close>).
\<close>

fun relaxRounds :: "nat \<Rightarrow> edge list \<Rightarrow> int32 list \<Rightarrow> failure + int32 list" where
  "relaxRounds 0 edges dist = Inr dist"
| "relaxRounds (Suc n) edges dist =
     (case relaxEdges edges dist of Inl f \<Rightarrow> Inl f | Inr dist' \<Rightarrow> relaxRounds n edges dist')"

text \<open>The verification pass, lines 40 to 48: it returns at the first improving edge.\<close>

fun verify :: "edge list \<Rightarrow> int32 list \<Rightarrow> failure + bool" where
  "verify [] dist = Inr False"
| "verify (e # es) dist =
     (case improves dist e of
        Inl f \<Rightarrow> Inl f
      | Inr True \<Rightarrow> Inr True
      | Inr False \<Rightarrow> verify es dist)"

text \<open>
  \<open>dist.assign(n, x)\<close> replaces the contents of the vector, whatever they were, by \<open>n\<close>
  copies of \<open>x\<close>.
\<close>

definition assign :: "nat \<Rightarrow> 'a \<Rightarrow> 'a list \<Rightarrow> 'a list" where
  "assign n x xs = replicate n x"

text \<open>
  \<open>bellmanFord(V, edges, source, dist)\<close>: the last argument is the vector the caller
  passes by reference; the result is the returned flag with the vector as the call
  leaves it. At line 30 the function has passed \<open>dist.assign\<close>, so \<open>0 \<le> V\<close>, and
  \<open>dist[source]\<close>, so \<open>0 < V\<close>: \<open>V - 1\<close> does not wrap.
\<close>

definition bellmanFord ::
  "int32 \<Rightarrow> edge list \<Rightarrow> int32 \<Rightarrow> int32 list \<Rightarrow> failure + (bool \<times> int32 list)" where
  "bellmanFord V edges source dist0 =
     (if sint V < 0 then Inl LengthError
      else
        let dist1 = assign (nat (sint V)) INF' dist0 in
        if \<not> in_range dist1 source then Inl UndefinedBehaviour
        else
          (case relaxRounds (nat (sint V - 1)) edges (dist1[slot source := 0]) of
             Inl f \<Rightarrow> Inl f
           | Inr dist \<Rightarrow>
               (case verify edges dist of
                  Inl f \<Rightarrow> Inl f
                | Inr flag \<Rightarrow> Inr (flag, dist))))"

text \<open>The vector after lines 27 and 28, when they succeed.\<close>

definition init :: "int32 \<Rightarrow> int32 \<Rightarrow> int32 list" where
  "init V source = (replicate (nat (sint V)) INF')[slot source := 0]"

subsection \<open>The run with a tally\<close>

text \<open>
  The source keeps no counter. \<open>bellmanFord_counted\<close> is the function once more,
  statement by statement, carrying a tally of what it does: the relaxation passes over
  the edge list it begins (line 31 reached), the verification passes it begins (line 40
  reached) and the tests of lines 34 and 43 it evaluates.
\<close>

record tally =
  relaxation_count :: nat
  verification_count :: nat
  test_count :: nat

text \<open>Lines 32 to 36 with the tally: one more test.\<close>

fun relax_counted :: "edge \<Rightarrow> int32 list \<times> tally \<Rightarrow> failure + int32 list \<times> tally" where
  "relax_counted e (dist, t) =
     (case relax e dist of
        Inl f \<Rightarrow> Inl f
      | Inr dist' \<Rightarrow> Inr (dist', t\<lparr>test_count := Suc (test_count t)\<rparr>))"

text \<open>Lines 31 to 37 with the tally.\<close>

fun relaxEdges_counted :: "edge list \<Rightarrow> int32 list \<times> tally \<Rightarrow> failure + int32 list \<times> tally" where
  "relaxEdges_counted [] st = Inr st"
| "relaxEdges_counted (e # es) st =
     (case relax_counted e st of Inl f \<Rightarrow> Inl f | Inr st' \<Rightarrow> relaxEdges_counted es st')"

text \<open>
  Lines 30 to 38 as the source writes them: the loop variable \<open>i\<close> is an \<open>int\<close>, the test
  is \<open>i <= V - 1\<close> and the step \<open>++i\<close>, all in the arithmetic of \<open>int\<close>. Nothing in the
  definition says that the loop ends: it is a partial function, with the value \<open>None\<close>
  when it does not (\<open>rounds_loop_eq\<close> shows that it ends when started at \<open>i = 1\<close> with
  \<open>0 < V\<close>).
\<close>

partial_function (option) rounds_loop ::
  "int32 \<Rightarrow> int32 \<Rightarrow> edge list \<Rightarrow> int32 list \<Rightarrow> tally \<Rightarrow> (failure + int32 list \<times> tally) option" where
  "rounds_loop i V edges dist t =
     (if i \<le>s V - 1 then
        (case relaxEdges_counted edges (dist, t\<lparr>relaxation_count := Suc (relaxation_count t)\<rparr>) of
           Inl f \<Rightarrow> Some (Inl f)
         | Inr (dist', t') \<Rightarrow> rounds_loop (i + 1) V edges dist' t')
      else Some (Inr (dist, t)))"

text \<open>Lines 40 to 48 with the tally.\<close>

fun verify_counted :: "edge list \<Rightarrow> int32 list \<Rightarrow> tally \<Rightarrow> failure + bool \<times> int32 list \<times> tally" where
  "verify_counted [] dist t = Inr (False, dist, t)"
| "verify_counted (e # es) dist t =
     (case improves dist e of
        Inl f \<Rightarrow> Inl f
      | Inr True \<Rightarrow> Inr (True, dist, t\<lparr>test_count := Suc (test_count t)\<rparr>)
      | Inr False \<Rightarrow> verify_counted es dist (t\<lparr>test_count := Suc (test_count t)\<rparr>))"

definition bellmanFord_counted ::
  "int32 \<Rightarrow> edge list \<Rightarrow> int32 \<Rightarrow> int32 list \<Rightarrow> (failure + bool \<times> int32 list \<times> tally) option" where
  "bellmanFord_counted V edges source dist0 =
     (if sint V < 0 then Some (Inl LengthError)
      else
        let dist1 = assign (nat (sint V)) INF' dist0 in
        if \<not> in_range dist1 source then Some (Inl UndefinedBehaviour)
        else
          (case rounds_loop 1 V edges (dist1[slot source := 0])
                  \<lparr>relaxation_count = 0, verification_count = 0, test_count = 0\<rparr> of
             None \<Rightarrow> None
           | Some (Inl f) \<Rightarrow> Some (Inl f)
           | Some (Inr (dist, t)) \<Rightarrow>
               (case verify_counted edges dist (t\<lparr>verification_count := Suc (verification_count t)\<rparr>) of
                  Inl f \<Rightarrow> Some (Inl f)
                | Inr r \<Rightarrow> Some (Inr r))))"

subsection \<open>Passes as functions of the input\<close>

text \<open>
  The passes a call begins, also for a call that fails, and the tests of the
  verification pass.
\<close>

fun relaxRounds_passes :: "nat \<Rightarrow> edge list \<Rightarrow> int32 list \<Rightarrow> nat" where
  "relaxRounds_passes 0 edges dist = 0"
| "relaxRounds_passes (Suc n) edges dist =
     1 + (case relaxEdges edges dist of Inl f \<Rightarrow> 0 | Inr dist' \<Rightarrow> relaxRounds_passes n edges dist')"

fun verify_tests :: "edge list \<Rightarrow> int32 list \<Rightarrow> nat" where
  "verify_tests [] dist = 0"
| "verify_tests (e # es) dist =
     1 + (case improves dist e of
            Inl f \<Rightarrow> 0
          | Inr True \<Rightarrow> 0
          | Inr False \<Rightarrow> verify_tests es dist)"

text \<open>The passes of the relaxation loop, and those of the verification loop (0 or 1).\<close>

definition relaxation_passes :: "int32 \<Rightarrow> edge list \<Rightarrow> int32 \<Rightarrow> nat" where
  "relaxation_passes V edges source =
     (if sint V < 0 \<or> \<not> in_range (replicate (nat (sint V)) INF') source then 0
      else relaxRounds_passes (nat (sint V - 1)) edges (init V source))"

definition verification_passes :: "int32 \<Rightarrow> edge list \<Rightarrow> int32 \<Rightarrow> nat" where
  "verification_passes V edges source =
     (if sint V < 0 \<or> \<not> in_range (replicate (nat (sint V)) INF') source then 0
      else (case relaxRounds (nat (sint V - 1)) edges (init V source) of
              Inl f \<Rightarrow> 0 | Inr dist \<Rightarrow> 1))"

section \<open>The graph of an input\<close>

text \<open>A vertex is an \<open>int\<close> in \<open>[0, V)\<close>.\<close>

definition vertex :: "int32 \<Rightarrow> int32 \<Rightarrow> bool" where
  "vertex V x \<longleftrightarrow> 0 \<le> sint x \<and> sint x < sint V"

text \<open>
  A valid input: \<open>V > 0\<close>, \<open>source\<close> in \<open>[0, V)\<close> and both ends of every edge in
  \<open>[0, V)\<close>. The weights are any \<open>int\<close>.
\<close>

definition valid_input :: "int32 \<Rightarrow> edge list \<Rightarrow> int32 \<Rightarrow> bool" where
  "valid_input V edges source \<longleftrightarrow>
     0 < sint V \<and> vertex V source \<and> (\<forall>(u, v, w) \<in> set edges. vertex V u \<and> vertex V v)"

text \<open>
  A walk from \<open>x\<close> to \<open>y\<close> is a list of edges of the input, each starting where the one
  before it ends. Its weight is the sum of its weights, as integers (no wrap-around).
\<close>

fun is_walk :: "edge list \<Rightarrow> int32 \<Rightarrow> edge list \<Rightarrow> int32 \<Rightarrow> bool" where
  "is_walk edges x [] y \<longleftrightarrow> x = y"
| "is_walk edges x ((u, v, w) # p) y \<longleftrightarrow> u = x \<and> (u, v, w) \<in> set edges \<and> is_walk edges v p y"

definition weight :: "edge list \<Rightarrow> int" where
  "weight p = sum_list (map (\<lambda>(u, v, w). sint w) p)"

definition reachable :: "edge list \<Rightarrow> int32 \<Rightarrow> int32 \<Rightarrow> bool" where
  "reachable edges source x \<longleftrightarrow> (\<exists>p. is_walk edges source p x)"

text \<open>The vertices a walk from \<open>x\<close> passes, in order.\<close>

definition verts :: "int32 \<Rightarrow> edge list \<Rightarrow> int32 list" where
  "verts x p = x # map (\<lambda>(u, v, w). v) p"

text \<open>
  A cycle at \<open>x\<close> is a walk from \<open>x\<close> back to \<open>x\<close> that has at least one edge and
  enters no vertex twice (a self-loop is a cycle of one edge). A negative cycle is one
  with negative weight; it is reachable when its vertex has a walk from the source.
\<close>

definition cycle :: "edge list \<Rightarrow> int32 \<Rightarrow> edge list \<Rightarrow> bool" where
  "cycle edges x c \<longleftrightarrow> c \<noteq> [] \<and> is_walk edges x c x \<and> distinct (map (\<lambda>(u, v, w). v) c)"

definition negative_cycle :: "edge list \<Rightarrow> int32 \<Rightarrow> bool" where
  "negative_cycle edges source \<longleftrightarrow>
     (\<exists>x c. reachable edges source x \<and> cycle edges x c \<and> weight c < 0)"

text \<open>No cycle of the graph, reachable or not, has negative weight.\<close>

definition nonnegative_cycles :: "edge list \<Rightarrow> bool" where
  "nonnegative_cycles edges \<longleftrightarrow> (\<forall>x c. cycle edges x c \<longrightarrow> 0 \<le> weight c)"

text \<open>
  The sum of the absolute values of the weights. When \<open>V\<close> times this sum stays below
  \<open>INF\<close>, no sum \<open>dist[u] + w\<close> of a run leaves the range of \<open>int\<close>, and no distance of a
  vertex that has a path from the source reaches \<open>INF\<close>.
\<close>

definition total_weight :: "edge list \<Rightarrow> int" where
  "total_weight edges = sum_list (map (\<lambda>(u, v, w). \<bar>sint w\<bar>) edges)"

definition small_weights :: "int32 \<Rightarrow> edge list \<Rightarrow> bool" where
  "small_weights V edges \<longleftrightarrow> sint V * total_weight edges < 1000000000"

text \<open>
  The largest absolute value of a weight. Without a negative cycle, \<open>V\<close> times this
  value below \<open>INF\<close> is enough for a run in which no sum wraps.
\<close>

definition max_weight :: "edge list \<Rightarrow> int" where
  "max_weight edges = foldr (\<lambda>(u, v, w) m. max \<bar>sint w\<bar> m) edges 0"

definition moderate_weights :: "int32 \<Rightarrow> edge list \<Rightarrow> bool" where
  "moderate_weights V edges \<longleftrightarrow> sint V * max_weight edges < 1000000000"

subsection \<open>Relaxation over the integers\<close>

text \<open>
  The relaxation step with the distances read as integers and the sum taken in the
  integers. It is the step of the program as long as no sum wraps around
  (\<open>relaxEdges_sint\<close> below), and the one the graph-theoretic argument is about.
\<close>

fun relaxI :: "edge \<Rightarrow> int list \<Rightarrow> int list" where
  "relaxI (u, v, w) d =
     (if d ! slot u \<noteq> 1000000000 \<and> d ! slot u + sint w < d ! slot v
      then d[slot v := d ! slot u + sint w] else d)"

definition improvingI :: "int list \<Rightarrow> edge \<Rightarrow> bool" where
  "improvingI d e \<longleftrightarrow>
     (case e of (u, v, w) \<Rightarrow> d ! slot u \<noteq> 1000000000 \<and> d ! slot u + sint w < d ! slot v)"

fun roundsI :: "nat \<Rightarrow> edge list \<Rightarrow> int list \<Rightarrow> int list" where
  "roundsI 0 edges d = d"
| "roundsI (Suc n) edges d = roundsI n edges (fold relaxI edges d)"

subsection \<open>Invariants of the run\<close>

text \<open>With the ends of every edge inside the vector, no access is out of range.\<close>

definition edges_in_range :: "nat \<Rightarrow> edge list \<Rightarrow> bool" where
  "edges_in_range n es \<longleftrightarrow>
     (\<forall>(u, v, w) \<in> set es. 0 \<le> sint u \<and> nat (sint u) < n \<and> 0 \<le> sint v \<and> nat (sint v) < n)"

text \<open>Every vertex whose distance is not \<open>INF\<close> has a walk from the source.\<close>

definition finite_reachable :: "int32 \<Rightarrow> edge list \<Rightarrow> int32 \<Rightarrow> int32 list \<Rightarrow> bool" where
  "finite_reachable V edges source dist \<longleftrightarrow>
     (\<forall>x. vertex V x \<and> dist ! slot x \<noteq> INF' \<longrightarrow> reachable edges source x)"

text \<open>
  The distances read as integers: none above \<open>INF\<close>, and those that are not \<open>INF\<close>
  within \<open>B\<close> of zero.
\<close>

definition bounded :: "int \<Rightarrow> int list \<Rightarrow> bool" where
  "bounded B d \<longleftrightarrow>
     (\<forall>i < length d. d ! i \<le> 1000000000 \<and> (d ! i \<noteq> 1000000000 \<longrightarrow> - B \<le> d ! i \<and> d ! i \<le> B))"

text \<open>
  Every distance that is not \<open>INF\<close> is the weight of a walk from the source.
\<close>

definition walk_distances :: "int32 \<Rightarrow> edge list \<Rightarrow> int32 \<Rightarrow> int list \<Rightarrow> bool" where
  "walk_distances V edges source d \<longleftrightarrow>
     (\<forall>x. vertex V x \<and> d ! slot x \<noteq> 1000000000 \<longrightarrow>
          (\<exists>p. is_walk edges source p x \<and> weight p = d ! slot x))"

text \<open>The invariant of a run over the integers.\<close>

definition walk_inv :: "int32 \<Rightarrow> edge list \<Rightarrow> int32 \<Rightarrow> int list \<Rightarrow> bool" where
  "walk_inv V edges source d \<longleftrightarrow>
     length d = nat (sint V) \<and> (\<forall>i < length d. d ! i \<le> 1000000000)
     \<and> walk_distances V edges source d"

section \<open>Basic facts about the run\<close>

lemma sint_INF' [simp]: "sint INF' = 1000000000"
  by (simp add: INF'_def)

lemma INF'_iff: "x = INF' \<longleftrightarrow> sint x = 1000000000"
  by (metis sint_INF' signed_word_eqI)

lemma in_range_vertex:
  "length dist = nat (sint V) \<Longrightarrow> in_range dist x \<longleftrightarrow> vertex V x"
  by (auto simp: in_range_def vertex_def)

lemma vertex_slot: "vertex V x \<Longrightarrow> slot x < nat (sint V)"
  by (auto simp: vertex_def slot_def)

lemma slot_inj:
  assumes "vertex V x" "vertex V y" "slot x = slot y"
  shows "x = y"
proof -
  from assms have "sint x = sint y"
    by (simp add: vertex_def slot_def eq_nat_nat_iff)
  then show ?thesis by (rule signed_word_eqI)
qed

lemma improves_in_range:
  "in_range dist u \<Longrightarrow> in_range dist v \<Longrightarrow>
   improves dist (u, v, w) = Inr (dist ! slot u \<noteq> INF' \<and> dist ! slot u + w <s dist ! slot v)"
  by simp

lemma length_relax: "relax e dist = Inr dist' \<Longrightarrow> length dist' = length dist"
  by (cases e) (auto split: if_splits sum.splits bool.splits)

lemma length_relaxEdges: "relaxEdges es dist = Inr dist' \<Longrightarrow> length dist' = length dist"
proof (induction es arbitrary: dist)
  case Nil
  then show ?case by simp
next
  case (Cons e es)
  then show ?case
    by (auto split: sum.splits dest: length_relax)
qed

lemma length_relaxRounds: "relaxRounds n edges dist = Inr dist' \<Longrightarrow> length dist' = length dist"
proof (induction n arbitrary: dist)
  case 0
  then show ?case by simp
next
  case (Suc n)
  then show ?case
    by (auto split: sum.splits dest: length_relaxEdges)
qed

lemma edges_in_range_Cons:
  "edges_in_range n ((u, v, w) # es) \<longleftrightarrow>
     0 \<le> sint u \<and> nat (sint u) < n \<and> 0 \<le> sint v \<and> nat (sint v) < n \<and> edges_in_range n es"
  by (auto simp: edges_in_range_def)

lemma valid_input_edges_in_range:
  "valid_input V edges source \<Longrightarrow> edges_in_range (nat (sint V)) edges"
  by (fastforce simp: valid_input_def edges_in_range_def vertex_def)

lemma relax_defined:
  assumes "edges_in_range (length dist) [e]"
  shows "\<exists>dist'. relax e dist = Inr dist'"
proof -
  obtain u v w where e: "e = (u, v, w)" by (cases e)
  from assms e have "in_range dist u" "in_range dist v"
    by (auto simp: edges_in_range_def in_range_def)
  then show ?thesis
    by (simp add: e split: bool.splits)
qed

lemma relaxEdges_defined:
  "edges_in_range (length dist) es \<Longrightarrow> \<exists>dist'. relaxEdges es dist = Inr dist'"
proof (induction es arbitrary: dist)
  case Nil
  then show ?case by simp
next
  case (Cons e es)
  obtain u v w where e: "e = (u, v, w)" by (cases e)
  from Cons.prems e have "edges_in_range (length dist) [e]" and rest: "edges_in_range (length dist) es"
    by (auto simp: edges_in_range_def)
  then obtain d1 where d1: "relax e dist = Inr d1"
    using relax_defined by blast
  then have "length d1 = length dist" by (rule length_relax)
  with rest Cons.IH [of d1] obtain d2 where "relaxEdges es d1 = Inr d2" by auto
  with d1 show ?case by simp
qed

lemma relaxRounds_defined:
  "edges_in_range (length dist) edges \<Longrightarrow> \<exists>dist'. relaxRounds n edges dist = Inr dist'"
proof (induction n arbitrary: dist)
  case 0
  then show ?case by simp
next
  case (Suc n)
  then obtain d1 where d1: "relaxEdges edges dist = Inr d1"
    using relaxEdges_defined by blast
  then have "length d1 = length dist" by (rule length_relaxEdges)
  with Suc.prems Suc.IH [of d1] obtain d2 where "relaxRounds n edges d1 = Inr d2" by auto
  with d1 show ?case by simp
qed

lemma verify_in_range:
  "edges_in_range (length dist) es \<Longrightarrow>
   verify es dist =
     Inr (\<exists>(u, v, w) \<in> set es. dist ! slot u \<noteq> INF' \<and> dist ! slot u + w <s dist ! slot v)"
proof (induction es)
  case Nil
  then show ?case by simp
next
  case (Cons e es)
  obtain u v w where e: "e = (u, v, w)" by (cases e)
  from Cons.prems e have uv: "in_range dist u" "in_range dist v" and rest: "edges_in_range (length dist) es"
    by (auto simp: edges_in_range_def in_range_def)
  show ?case
    using Cons.IH [OF rest] uv by (auto simp: e split: bool.splits)
qed

lemma length_init [simp]: "length (init V source) = nat (sint V)"
  by (simp add: init_def)

text \<open>On a valid input the call returns, and the flag is the verdict of the last pass.\<close>

lemma bellmanFord_valid:
  assumes "valid_input V edges source"
  obtains dist where
    "relaxRounds (nat (sint V - 1)) edges (init V source) = Inr dist"
    "length dist = nat (sint V)"
    "bellmanFord V edges source dist0 =
       Inr ((\<exists>(u, v, w) \<in> set edges. dist ! slot u \<noteq> INF' \<and> dist ! slot u + w <s dist ! slot v), dist)"
proof -
  from assms have V: "0 < sint V" and src: "vertex V source"
    by (auto simp: valid_input_def)
  have eir: "edges_in_range (length (init V source)) edges"
    using valid_input_edges_in_range [OF assms] by simp
  then obtain dist where d: "relaxRounds (nat (sint V - 1)) edges (init V source) = Inr dist"
    using relaxRounds_defined by blast
  then have len: "length dist = nat (sint V)"
    using length_relaxRounds by fastforce
  have "in_range (replicate (nat (sint V)) INF') source"
    using src by (simp add: in_range_def vertex_def)
  moreover have "edges_in_range (length dist) edges"
    using eir len by simp
  ultimately have "bellmanFord V edges source dist0 =
       Inr ((\<exists>(u, v, w) \<in> set edges. dist ! slot u \<noteq> INF' \<and> dist ! slot u + w <s dist ! slot v), dist)"
    using V d by (simp add: bellmanFord_def assign_def init_def verify_in_range)
  with d len show ?thesis by (rule that)
qed

section \<open>The counted run is the run\<close>

text \<open>
  Each counted loop returns what the loop of the program returns, with the tally
  advanced by the work done.
\<close>

lemma relaxEdges_counted_eq:
  "relaxEdges_counted es (dist, t) =
     (case relaxEdges es dist of
        Inl f \<Rightarrow> Inl f
      | Inr d \<Rightarrow> Inr (d, t\<lparr>test_count := test_count t + length es\<rparr>))"
proof (induction es arbitrary: dist t)
  case Nil
  then show ?case by simp
next
  case (Cons e es)
  show ?case
  proof (cases "relax e dist")
    case (Inl f)
    then show ?thesis by simp
  next
    case (Inr d1)
    then show ?thesis
      by (simp add: Cons.IH split: sum.splits)
  qed
qed

lemma rounds_loop_eq:
  assumes "0 < sint V" and "1 \<le> sint i" and "sint i \<le> sint V" and "n = nat (sint V - sint i)"
  shows "rounds_loop i V edges dist t =
     Some (case relaxRounds n edges dist of
             Inl f \<Rightarrow> Inl f
           | Inr d \<Rightarrow> Inr (d, t\<lparr>relaxation_count := relaxation_count t + n,
                                 test_count := test_count t + n * length edges\<rparr>))"
  using assms(2,3,4)
proof (induction n arbitrary: i dist t)
  case 0
  have V1: "sint (V - 1) = sint V - 1"
    using assms(1) sint_ge [of V] sint_lt [of V]
    by (simp add: sint_word_ariths signed_take_bit_int_eq_self)
  from 0 have "sint i = sint V" by simp
  with V1 have "\<not> i \<le>s V - 1" by (simp add: word_sle_eq)
  then show ?case
    by (subst rounds_loop.simps) simp
next
  case (Suc n)
  have V1: "sint (V - 1) = sint V - 1"
    using assms(1) sint_ge [of V] sint_lt [of V]
    by (simp add: sint_word_ariths signed_take_bit_int_eq_self)
  from Suc.prems have lt: "sint i < sint V" by simp
  with V1 have cond: "i \<le>s V - 1" by (simp add: word_sle_eq)
  have i1: "sint (i + 1) = sint i + 1"
    using lt Suc.prems(1) sint_lt [of V]
    by (simp add: sint_word_ariths signed_take_bit_int_eq_self)
  have n: "n = nat (sint V - sint (i + 1))"
    using Suc.prems(3) i1 by simp
  have le: "1 \<le> sint (i + 1)" "sint (i + 1) \<le> sint V"
    using i1 lt Suc.prems(1) by simp_all
  show ?case
  proof (cases "relaxEdges edges dist")
    case (Inl f)
    with cond show ?thesis
      by (subst rounds_loop.simps) (simp add: relaxEdges_counted_eq)
  next
    case (Inr d1)
    with cond show ?thesis
      by (subst rounds_loop.simps)
        (simp add: relaxEdges_counted_eq Suc.IH [OF le n] split: sum.splits)
  qed
qed

lemma verify_tests_le: "verify_tests es dist \<le> length es"
  by (induction es) (auto split: sum.splits bool.splits)

lemma verify_tests_False: "verify es dist = Inr False \<Longrightarrow> verify_tests es dist = length es"
  by (induction es) (auto split: sum.splits bool.splits)

lemma verify_counted_eq:
  "verify_counted es dist t =
     (case verify es dist of
        Inl f \<Rightarrow> Inl f
      | Inr b \<Rightarrow> Inr (b, dist, t\<lparr>test_count := test_count t + verify_tests es dist\<rparr>))"
proof (induction es arbitrary: t)
  case Nil
  then show ?case by simp
next
  case (Cons e es)
  show ?case
    by (cases "improves dist e") (auto simp: Cons.IH split: sum.splits bool.splits)
qed

text \<open>
  On every input the counted function returns, and it returns what \<open>bellmanFord\<close>
  returns.
\<close>

lemma bellmanFord_counted_eq:
  "bellmanFord_counted V edges source dist0 =
     Some (case bellmanFord V edges source dist0 of
             Inl f \<Rightarrow> Inl f
           | Inr (flag, dist) \<Rightarrow>
               Inr (flag, dist,
                    \<lparr>relaxation_count = nat (sint V) - 1, verification_count = 1,
                     test_count = (nat (sint V) - 1) * length edges + verify_tests edges dist\<rparr>))"
proof (cases "sint V < 0 \<or> \<not> in_range (assign (nat (sint V)) INF' dist0) source")
  case True
  then show ?thesis
    by (auto simp: bellmanFord_counted_def bellmanFord_def)
next
  case False
  then have V: "0 < sint V"
    by (auto simp: in_range_def assign_def)
  have n: "nat (sint V - 1) = nat (sint V - sint (1 :: int32))" by simp
  have loop: "rounds_loop 1 V edges dist t =
     Some (case relaxRounds (nat (sint V - 1)) edges dist of
             Inl f \<Rightarrow> Inl f
           | Inr d \<Rightarrow> Inr (d, t\<lparr>relaxation_count := relaxation_count t + nat (sint V - 1),
                                 test_count := test_count t + nat (sint V - 1) * length edges\<rparr>))"
    for dist t
    using V by (intro rounds_loop_eq) simp_all
  have k: "nat (sint V - 1) = nat (sint V) - 1" by simp
  show ?thesis
    using False
    by (auto simp: bellmanFord_counted_def bellmanFord_def loop verify_counted_eq k Let_def
        split: sum.splits)
qed

text \<open>The passes of a call that returns are those of its tally.\<close>

lemma relaxRounds_passes_returns:
  "relaxRounds n edges dist = Inr dist' \<Longrightarrow> relaxRounds_passes n edges dist = n"
proof (induction n arbitrary: dist)
  case 0
  then show ?case by simp
next
  case (Suc n)
  then show ?case
    by (auto split: sum.splits)
qed

lemma passes_of_returning_call:
  assumes "bellmanFord V edges source dist0 = Inr (flag, dist)"
  shows "relaxation_passes V edges source = nat (sint V) - 1
     \<and> verification_passes V edges source = 1"
proof -
  from assms have guard: "\<not> (sint V < 0 \<or> \<not> in_range (replicate (nat (sint V)) INF') source)"
    by (auto simp: bellmanFord_def assign_def Let_def split: if_splits)
  with assms obtain d where d: "relaxRounds (nat (sint V - 1)) edges (init V source) = Inr d"
    by (auto simp: bellmanFord_def assign_def init_def Let_def split: if_splits sum.splits)
  have "nat (sint V - 1) = nat (sint V) - 1" by simp
  with guard d relaxRounds_passes_returns [OF d] show ?thesis
    by (simp add: relaxation_passes_def verification_passes_def)
qed

section \<open>Walks\<close>

lemma is_walk_append:
  "is_walk edges x (p @ q) y \<longleftrightarrow> (\<exists>m. is_walk edges x p m \<and> is_walk edges m q y)"
  by (induction p arbitrary: x) auto

lemma is_walk_snoc:
  "is_walk edges x p u \<Longrightarrow> (u, v, w) \<in> set edges \<Longrightarrow> is_walk edges x (p @ [(u, v, w)]) v"
  by (auto simp: is_walk_append)

lemma weight_Nil [simp]: "weight [] = 0"
  by (simp add: weight_def)

lemma weight_Cons [simp]: "weight ((u, v, w) # p) = sint w + weight p"
  by (simp add: weight_def)

lemma weight_append [simp]: "weight (p @ q) = weight p + weight q"
  by (simp add: weight_def)

lemma reachable_source: "reachable edges source source"
  unfolding reachable_def by (rule exI [of _ "[]"]) simp

lemma reachable_step:
  "reachable edges source u \<Longrightarrow> (u, v, w) \<in> set edges \<Longrightarrow> reachable edges source v"
  unfolding reachable_def using is_walk_snoc by blast

section \<open>Only reachable vertices get a distance\<close>

lemma finite_reachable_init:
  assumes "vertex V source"
  shows "finite_reachable V edges source (init V source)"
  unfolding finite_reachable_def
proof (intro allI impI)
  fix x
  assume x: "vertex V x \<and> init V source ! slot x \<noteq> INF'"
  then have "slot x < nat (sint V)" by (simp add: vertex_slot)
  with x have "slot x = slot source"
    by (cases "slot x = slot source") (auto simp: init_def)
  with x assms have "x = source" by (auto intro: slot_inj)
  then show "reachable edges source x" by (simp add: reachable_source)
qed

lemma finite_reachable_relax:
  assumes inv: "finite_reachable V edges source dist"
    and e: "(u, v, w) \<in> set edges" "vertex V u" "vertex V v"
    and r: "relax (u, v, w) dist = Inr dist'"
  shows "finite_reachable V edges source dist'"
proof (cases "dist' = dist")
  case True
  with inv show ?thesis by simp
next
  case False
  with r have upd: "dist' = dist[slot v := dist ! slot u + w]" and fin: "dist ! slot u \<noteq> INF'"
    by (auto split: if_splits bool.splits)
  from inv e(2) fin have "reachable edges source u"
    by (simp add: finite_reachable_def)
  then have rv: "reachable edges source v" using e(1) by (rule reachable_step)
  show ?thesis
    unfolding finite_reachable_def
  proof (intro allI impI)
    fix x
    assume x: "vertex V x \<and> dist' ! slot x \<noteq> INF'"
    show "reachable edges source x"
    proof (cases "slot x = slot v")
      case True
      with x e(3) have "x = v" by (auto intro: slot_inj)
      with rv show ?thesis by simp
    next
      case False
      with x upd have "dist ! slot x \<noteq> INF'" by simp
      with x inv show ?thesis by (simp add: finite_reachable_def)
    qed
  qed
qed

lemma finite_reachable_relaxEdges:
  assumes "finite_reachable V edges source dist"
    and "set es \<subseteq> set edges"
    and "\<forall>(u, v, w) \<in> set edges. vertex V u \<and> vertex V v"
    and "relaxEdges es dist = Inr dist'"
  shows "finite_reachable V edges source dist'"
  using assms
proof (induction es arbitrary: dist)
  case Nil
  then show ?case by simp
next
  case (Cons e es)
  obtain u v w where e: "e = (u, v, w)" by (cases e)
  from Cons.prems(4) obtain d1 where d1: "relax e dist = Inr d1" and rest: "relaxEdges es d1 = Inr dist'"
    by (auto split: sum.splits)
  from Cons.prems(2,3) e have "(u, v, w) \<in> set edges" "vertex V u" "vertex V v"
    by auto
  with Cons.prems(1) d1 e have "finite_reachable V edges source d1"
    using finite_reachable_relax by blast
  with Cons.IH [of d1] Cons.prems(2,3) rest show ?case by simp
qed

lemma finite_reachable_relaxRounds:
  assumes "finite_reachable V edges source dist"
    and "\<forall>(u, v, w) \<in> set edges. vertex V u \<and> vertex V v"
    and "relaxRounds n edges dist = Inr dist'"
  shows "finite_reachable V edges source dist'"
  using assms
proof (induction n arbitrary: dist)
  case 0
  then show ?case by simp
next
  case (Suc n)
  from Suc.prems(3) obtain d1 where d1: "relaxEdges edges dist = Inr d1"
    and rest: "relaxRounds n edges d1 = Inr dist'"
    by (auto split: sum.splits)
  from Suc.prems(1,2) d1 have "finite_reachable V edges source d1"
    using finite_reachable_relaxEdges [of V edges source dist edges d1] by simp
  with Suc.IH [of d1] Suc.prems(2) rest show ?case by simp
qed

section \<open>Relaxation over the integers\<close>

lemma length_relaxI [simp]: "length (relaxI e d) = length d"
  by (cases e) simp

declare relaxI.simps [simp del]

lemma length_fold_relaxI [simp]: "length (fold relaxI es d) = length d"
  by (induction es arbitrary: d) simp_all

lemma length_roundsI [simp]: "length (roundsI n edges d) = length d"
  by (induction n arbitrary: d) simp_all

lemma relaxI_le: "i < length d \<Longrightarrow> relaxI e d ! i \<le> d ! i"
proof -
  assume i: "i < length d"
  obtain u v w where e: "e = (u, v, w)" by (cases e)
  show ?thesis
    using i by (cases "i = slot v") (auto simp: e relaxI.simps)
qed

lemma fold_relaxI_le: "i < length d \<Longrightarrow> fold relaxI es d ! i \<le> d ! i"
proof (induction es arbitrary: d)
  case Nil
  then show ?case by simp
next
  case (Cons e es)
  have "fold relaxI es (relaxI e d) ! i \<le> relaxI e d ! i"
    using Cons.prems by (intro Cons.IH) simp
  also have "\<dots> \<le> d ! i"
    using Cons.prems by (rule relaxI_le)
  finally show ?case by simp
qed

lemma roundsI_le: "i < length d \<Longrightarrow> roundsI n edges d ! i \<le> d ! i"
proof (induction n arbitrary: d)
  case 0
  then show ?case by simp
next
  case (Suc n)
  have "roundsI n edges (fold relaxI edges d) ! i \<le> fold relaxI edges d ! i"
    using Suc.prems by (intro Suc.IH) simp
  also have "\<dots> \<le> d ! i"
    using Suc.prems by (rule fold_relaxI_le)
  finally show ?case by simp
qed

lemma roundsI_Suc_last: "roundsI (Suc n) edges d = fold relaxI edges (roundsI n edges d)"
  by (induction n arbitrary: d) simp_all

lemma total_weight_nonneg: "0 \<le> total_weight es"
  by (induction es) (auto simp: total_weight_def)

lemma total_weight_Cons: "total_weight ((u, v, w) # es) = \<bar>sint w\<bar> + total_weight es"
  by (simp add: total_weight_def)

lemma total_weight_mem: "(u, v, w) \<in> set es \<Longrightarrow> \<bar>sint w\<bar> \<le> total_weight es"
proof (induction es)
  case Nil
  then show ?case by simp
next
  case (Cons e es)
  obtain a b c where e: "e = (a, b, c)" by (cases e)
  show ?case
    using Cons total_weight_nonneg [of es] by (auto simp: e total_weight_Cons)
qed

lemma bounded_mono: "bounded B d \<Longrightarrow> B \<le> B' \<Longrightarrow> bounded B' d"
  by (fastforce simp: bounded_def)

lemma bounded_relaxI:
  assumes "bounded B d" and "slot u < length d" and "slot v < length d"
  shows "bounded (B + \<bar>sint w\<bar>) (relaxI (u, v, w) d)"
proof (cases "d ! slot u \<noteq> 1000000000 \<and> d ! slot u + sint w < d ! slot v")
  case False
  then have "relaxI (u, v, w) d = d" by (auto simp: relaxI.simps)
  with assms(1) show ?thesis by (auto intro: bounded_mono)
next
  case True
  from assms(1,2) True have bu: "- B \<le> d ! slot u" "d ! slot u \<le> B"
    by (auto simp: bounded_def)
  from assms(1,3) have bv: "d ! slot v \<le> 1000000000"
    by (simp add: bounded_def)
  show ?thesis
    unfolding bounded_def
  proof (intro allI impI)
    fix i
    assume "i < length (relaxI (u, v, w) d)"
    then have i: "i < length d" by simp
    show "relaxI (u, v, w) d ! i \<le> 1000000000 \<and>
          (relaxI (u, v, w) d ! i \<noteq> 1000000000 \<longrightarrow>
           - (B + \<bar>sint w\<bar>) \<le> relaxI (u, v, w) d ! i \<and> relaxI (u, v, w) d ! i \<le> B + \<bar>sint w\<bar>)"
    proof (cases "i = slot v")
      case False
      with True have "relaxI (u, v, w) d ! i = d ! i" by (simp add: relaxI.simps)
      with assms(1) i show ?thesis by (fastforce simp: bounded_def)
    next
      case v: True
      with True i have "relaxI (u, v, w) d ! i = d ! slot u + sint w" by (simp add: relaxI.simps)
      with True bu bv show ?thesis by auto
    qed
  qed
qed

lemma bounded_fold_relaxI:
  assumes "bounded B d" and "edges_in_range (length d) es"
  shows "bounded (B + total_weight es) (fold relaxI es d)"
  using assms
proof (induction es arbitrary: B d)
  case Nil
  then show ?case by (simp add: total_weight_def)
next
  case (Cons e es)
  obtain u v w where e: "e = (u, v, w)" by (cases e)
  from Cons.prems(2) e have uv: "slot u < length d" "slot v < length d"
    and rest: "edges_in_range (length d) es"
    by (auto simp: edges_in_range_Cons slot_def)
  have "bounded (B + \<bar>sint w\<bar>) (relaxI (u, v, w) d)"
    using Cons.prems(1) uv by (rule bounded_relaxI)
  then have "bounded (B + \<bar>sint w\<bar> + total_weight es) (fold relaxI es (relaxI (u, v, w) d))"
    using rest by (intro Cons.IH) simp_all
  then show ?case
    by (simp add: e total_weight_Cons add.assoc)
qed

lemma bounded_roundsI:
  assumes "bounded B d" and "edges_in_range (length d) edges"
  shows "bounded (B + int n * total_weight edges) (roundsI n edges d)"
  using assms
proof (induction n arbitrary: B d)
  case 0
  then show ?case by simp
next
  case (Suc n)
  have "bounded (B + total_weight edges) (fold relaxI edges d)"
    using Suc.prems by (rule bounded_fold_relaxI)
  then have "bounded (B + total_weight edges + int n * total_weight edges)
      (roundsI n edges (fold relaxI edges d))"
    using Suc.prems(2) by (intro Suc.IH) simp_all
  then show ?case
    by (simp add: algebra_simps)
qed

section \<open>The program's relaxation is the one over the integers when no sum wraps\<close>

lemma sint_add_no_wrap:
  fixes a w :: int32
  assumes "- 2147483648 \<le> sint a + sint w" and "sint a + sint w < 2147483648"
  shows "sint (a + w) = sint a + sint w"
  using assms by (simp add: sint_word_ariths signed_take_bit_int_eq_self)

lemma relax_sint:
  assumes u: "in_range dist u" and v: "in_range dist v"
    and nowrap: "dist ! slot u \<noteq> INF' \<Longrightarrow>
       - 2147483648 \<le> sint (dist ! slot u) + sint w \<and> sint (dist ! slot u) + sint w < 2147483648"
  shows "\<exists>dist'. relax (u, v, w) dist = Inr dist' \<and> map sint dist' = relaxI (u, v, w) (map sint dist)"
proof -
  from u v have su: "slot u < length dist" and sv: "slot v < length dist"
    by (simp_all add: in_range_def slot_def)
  show ?thesis
  proof (cases "dist ! slot u = INF'")
    case True
    then have "sint (dist ! slot u) = 1000000000" by simp
    with True u v su show ?thesis by (simp add: relaxI.simps)
  next
    case False
    then have ne: "sint (dist ! slot u) \<noteq> 1000000000" by (simp add: INF'_iff)
    from nowrap [OF False] have sum: "sint (dist ! slot u + w) = sint (dist ! slot u) + sint w"
      by (intro sint_add_no_wrap) simp_all
    then have "dist ! slot u + w <s dist ! slot v \<longleftrightarrow>
        sint (dist ! slot u) + sint w < sint (dist ! slot v)"
      by (simp add: word_sless_alt)
    with False ne u v su sv sum show ?thesis
      by (auto simp: map_update relaxI.simps split: bool.splits)
  qed
qed

lemma improves_sint:
  assumes u: "in_range dist u" and v: "in_range dist v"
    and nowrap: "dist ! slot u \<noteq> INF' \<Longrightarrow>
       - 2147483648 \<le> sint (dist ! slot u) + sint w \<and> sint (dist ! slot u) + sint w < 2147483648"
  shows "(dist ! slot u \<noteq> INF' \<and> dist ! slot u + w <s dist ! slot v) \<longleftrightarrow>
     improvingI (map sint dist) (u, v, w)"
proof -
  from u v have su: "slot u < length dist" and sv: "slot v < length dist"
    by (simp_all add: in_range_def slot_def)
  show ?thesis
  proof (cases "dist ! slot u = INF'")
    case True
    with su show ?thesis by (simp add: improvingI_def)
  next
    case False
    then have ne: "sint (dist ! slot u) \<noteq> 1000000000" by (simp add: INF'_iff)
    from nowrap [OF False] have "sint (dist ! slot u + w) = sint (dist ! slot u) + sint w"
      by (intro sint_add_no_wrap) simp_all
    then have "dist ! slot u + w <s dist ! slot v \<longleftrightarrow>
        sint (dist ! slot u) + sint w < sint (dist ! slot v)"
      by (simp add: word_sless_alt)
    with False ne su sv show ?thesis
      by (simp add: improvingI_def)
  qed
qed

text \<open>
  With the distances within \<open>B\<close> of zero and \<open>B\<close> plus the weights of the pass below
  \<open>INF\<close>, no sum of the pass wraps.
\<close>

lemma bounded_nowrap:
  assumes b: "bounded B (map sint dist)" and u: "slot u < length dist"
    and w: "B + \<bar>sint w\<bar> < 1000000000" and fin: "dist ! slot u \<noteq> INF'"
  shows "- 2147483648 \<le> sint (dist ! slot u) + sint w \<and> sint (dist ! slot u) + sint w < 2147483648"
proof -
  from fin have "sint (dist ! slot u) \<noteq> 1000000000" by (simp add: INF'_iff)
  with b u have "- B \<le> sint (dist ! slot u)" "sint (dist ! slot u) \<le> B"
    by (auto simp: bounded_def)
  with w show ?thesis by auto
qed

lemma relaxEdges_sint:
  assumes "edges_in_range (length dist) es"
    and "bounded B (map sint dist)"
    and "B + total_weight es < 1000000000"
  shows "\<exists>dist'. relaxEdges es dist = Inr dist' \<and> map sint dist' = fold relaxI es (map sint dist)"
  using assms
proof (induction es arbitrary: B dist)
  case Nil
  then show ?case by simp
next
  case (Cons e es)
  obtain u v w where e: "e = (u, v, w)" by (cases e)
  from Cons.prems(1) e have uv: "in_range dist u" "in_range dist v"
    and su: "slot u < length dist" "slot v < length dist"
    and rest: "edges_in_range (length dist) es"
    by (auto simp: edges_in_range_Cons in_range_def slot_def)
  have tw: "B + \<bar>sint w\<bar> + total_weight es < 1000000000"
    using Cons.prems(3) by (simp add: e total_weight_Cons)
  then have w: "B + \<bar>sint w\<bar> < 1000000000"
    using total_weight_nonneg [of es] by simp
  obtain d1 where d1: "relax (u, v, w) dist = Inr d1"
    and m1: "map sint d1 = relaxI (u, v, w) (map sint dist)"
    using relax_sint [OF uv] bounded_nowrap [OF Cons.prems(2) su(1) w] by blast
  have len: "length d1 = length dist"
    using d1 by (rule length_relax)
  have "bounded (B + \<bar>sint w\<bar>) (map sint d1)"
    unfolding m1 using Cons.prems(2) su by (intro bounded_relaxI) simp_all
  with rest len tw obtain d2 where "relaxEdges es d1 = Inr d2"
    and "map sint d2 = fold relaxI es (map sint d1)"
    using Cons.IH [of d1 "B + \<bar>sint w\<bar>"] by auto
  with d1 m1 show ?case by (simp add: e)
qed

lemma relaxRounds_sint:
  assumes "edges_in_range (length dist) edges"
    and "bounded B (map sint dist)"
    and "B + int n * total_weight edges < 1000000000"
  shows "\<exists>dist'. relaxRounds n edges dist = Inr dist' \<and> map sint dist' = roundsI n edges (map sint dist)"
  using assms
proof (induction n arbitrary: B dist)
  case 0
  then show ?case by simp
next
  case (Suc n)
  have tw: "B + total_weight edges + int n * total_weight edges < 1000000000"
    using Suc.prems(3) by (simp add: algebra_simps)
  moreover have "0 \<le> int n * total_weight edges"
    using total_weight_nonneg [of edges] by simp
  ultimately have "B + total_weight edges < 1000000000" by simp
  then obtain d1 where d1: "relaxEdges edges dist = Inr d1"
    and m1: "map sint d1 = fold relaxI edges (map sint dist)"
    using relaxEdges_sint [OF Suc.prems(1,2)] by blast
  have len: "length d1 = length dist"
    using d1 by (rule length_relaxEdges)
  have "bounded (B + total_weight edges) (map sint d1)"
    unfolding m1 using Suc.prems(1,2) by (intro bounded_fold_relaxI) simp_all
  with Suc.prems(1) len tw obtain d2 where "relaxRounds n edges d1 = Inr d2"
    and "map sint d2 = roundsI n edges (map sint d1)"
    using Suc.IH [of d1 "B + total_weight edges"] by auto
  with d1 m1 show ?case by simp
qed

section \<open>Every distance is the weight of a walk\<close>

lemma init_sint_nth:
  assumes "vertex V source" and "vertex V x"
  shows "map sint (init V source) ! slot x = (if x = source then 0 else 1000000000)"
proof -
  from assms have s: "slot source < nat (sint V)" and x: "slot x < nat (sint V)"
    by (simp_all add: vertex_slot)
  show ?thesis
  proof (cases "x = source")
    case True
    with s show ?thesis by (simp add: init_def)
  next
    case False
    with assms have "slot x \<noteq> slot source" using slot_inj by blast
    with x show ?thesis by (simp add: init_def False)
  qed
qed

lemma walk_distances_init:
  assumes "vertex V source"
  shows "walk_distances V edges source (map sint (init V source))"
  unfolding walk_distances_def
proof (intro allI impI)
  fix x
  assume x: "vertex V x \<and> map sint (init V source) ! slot x \<noteq> 1000000000"
  with assms have "x = source" and "map sint (init V source) ! slot x = 0"
    by (auto simp: init_sint_nth split: if_splits)
  then have "is_walk edges source [] x \<and> weight [] = map sint (init V source) ! slot x"
    by simp
  then show "\<exists>p. is_walk edges source p x \<and> weight p = map sint (init V source) ! slot x"
    by blast
qed

lemma walk_distances_relaxI:
  assumes inv: "walk_distances V edges source d"
    and e: "(u, v, w) \<in> set edges" "vertex V u" "vertex V v"
    and len: "length d = nat (sint V)"
  shows "walk_distances V edges source (relaxI (u, v, w) d)"
proof (cases "d ! slot u \<noteq> 1000000000 \<and> d ! slot u + sint w < d ! slot v")
  case False
  then have "relaxI (u, v, w) d = d" by (auto simp: relaxI.simps)
  with inv show ?thesis by simp
next
  case True
  then have upd: "relaxI (u, v, w) d = d[slot v := d ! slot u + sint w]"
    by (simp add: relaxI.simps)
  from inv e(2) True obtain p where p: "is_walk edges source p u" "weight p = d ! slot u"
    by (auto simp: walk_distances_def)
  from p(1) e(1) have pv: "is_walk edges source (p @ [(u, v, w)]) v"
    by (rule is_walk_snoc)
  have wv: "weight (p @ [(u, v, w)]) = d ! slot u + sint w"
    using p(2) by simp
  have sv: "slot v < length d"
    using e(3) len by (simp add: vertex_slot)
  show ?thesis
    unfolding walk_distances_def
  proof (intro allI impI)
    fix x
    assume x: "vertex V x \<and> relaxI (u, v, w) d ! slot x \<noteq> 1000000000"
    show "\<exists>q. is_walk edges source q x \<and> weight q = relaxI (u, v, w) d ! slot x"
    proof (cases "x = v")
      case True
      with sv have "relaxI (u, v, w) d ! slot x = d ! slot u + sint w"
        by (simp add: upd)
      with pv wv True show ?thesis by auto
    next
      case False
      with x e(3) have "slot x \<noteq> slot v" using slot_inj by blast
      then have "relaxI (u, v, w) d ! slot x = d ! slot x"
        by (simp add: upd)
      with x inv show ?thesis by (simp add: walk_distances_def)
    qed
  qed
qed

lemma walk_distances_fold:
  assumes "walk_distances V edges source d"
    and "set es \<subseteq> set edges"
    and "\<forall>(u, v, w) \<in> set edges. vertex V u \<and> vertex V v"
    and "length d = nat (sint V)"
  shows "walk_distances V edges source (fold relaxI es d)"
  using assms
proof (induction es arbitrary: d)
  case Nil
  then show ?case by simp
next
  case (Cons e es)
  obtain u v w where e: "e = (u, v, w)" by (cases e)
  from Cons.prems(2,3) e have "(u, v, w) \<in> set edges" "vertex V u" "vertex V v"
    by auto
  with Cons.prems(1) have "walk_distances V edges source (relaxI (u, v, w) d)"
    using Cons.prems(4) by (rule walk_distances_relaxI)
  with Cons.prems(2,3,4) have "walk_distances V edges source (fold relaxI es (relaxI (u, v, w) d))"
    by (intro Cons.IH) simp_all
  then show ?case by (simp add: e)
qed

lemma walk_distances_roundsI:
  assumes "walk_distances V edges source d"
    and "\<forall>(u, v, w) \<in> set edges. vertex V u \<and> vertex V v"
    and "length d = nat (sint V)"
  shows "walk_distances V edges source (roundsI n edges d)"
  using assms
proof (induction n arbitrary: d)
  case 0
  then show ?case by simp
next
  case (Suc n)
  have "walk_distances V edges source (fold relaxI edges d)"
    using Suc.prems by (intro walk_distances_fold) simp_all
  with Suc.prems(2,3) have "walk_distances V edges source (roundsI n edges (fold relaxI edges d))"
    by (intro Suc.IH) simp_all
  then show ?case by simp
qed

section \<open>After \<open>k\<close> rounds no walk of at most \<open>k\<close> edges is shorter\<close>

lemma weight_bound:
  assumes "\<forall>(u, v, w) \<in> set edges. \<bar>sint w\<bar> \<le> W" and "is_walk edges x p y"
  shows "\<bar>weight p\<bar> \<le> int (length p) * W"
  using assms(2)
proof (induction p arbitrary: x)
  case Nil
  then show ?case by simp
next
  case (Cons e p)
  obtain u v w where e: "e = (u, v, w)" by (cases e)
  from Cons.prems e have mem: "(u, v, w) \<in> set edges" and rest: "is_walk edges v p y"
    by auto
  from assms(1) mem have "\<bar>sint w\<bar> \<le> W" by auto
  moreover from rest have "\<bar>weight p\<bar> \<le> int (length p) * W"
    by (rule Cons.IH)
  ultimately show ?case
    by (simp add: e algebra_simps)
qed

lemma relaxI_edge:
  assumes "slot u < length d" and "slot v < length d" and "d ! slot u \<le> c" and "c < 1000000000"
  shows "relaxI (u, v, w) d ! slot v \<le> c + sint w"
  using assms by (auto simp: relaxI.simps)

lemma fold_relaxI_edge:
  assumes "(u, v, w) \<in> set es" and "edges_in_range (length d) es"
    and "d ! slot u \<le> c" and "c < 1000000000"
  shows "fold relaxI es d ! slot v \<le> c + sint w"
  using assms
proof (induction es arbitrary: d)
  case Nil
  then show ?case by simp
next
  case (Cons e es)
  obtain a b x where e: "e = (a, b, x)" by (cases e)
  from Cons.prems(2) e have rest: "edges_in_range (length d) es"
    by (simp add: edges_in_range_Cons)
  from Cons.prems(1,2) have uv: "slot u < length d" "slot v < length d"
    by (auto simp: edges_in_range_def slot_def)
  show ?case
  proof (cases "e = (u, v, w)")
    case True
    have "fold relaxI es (relaxI e d) ! slot v \<le> relaxI e d ! slot v"
      using uv by (intro fold_relaxI_le) simp
    also have "\<dots> \<le> c + sint w"
      unfolding True using uv Cons.prems(3,4) by (rule relaxI_edge)
    finally show ?thesis by simp
  next
    case False
    with Cons.prems(1) have mem: "(u, v, w) \<in> set es" by simp
    have "relaxI e d ! slot u \<le> d ! slot u"
      using uv by (intro relaxI_le)
    with Cons.prems(3) have "relaxI e d ! slot u \<le> c" by simp
    with mem rest Cons.prems(4) have "fold relaxI es (relaxI e d) ! slot v \<le> c + sint w"
      by (intro Cons.IH) simp_all
    then show ?thesis by simp
  qed
qed

lemma roundsI_optimal:
  assumes valid: "valid_input V edges source"
    and wb: "\<forall>(u, v, w) \<in> set edges. \<bar>sint w\<bar> \<le> W" and W: "0 \<le> W"
    and small: "int k * W < 1000000000"
    and walk: "is_walk edges source p x"
    and len: "length p \<le> k"
  shows "roundsI k edges (map sint (init V source)) ! slot x \<le> weight p"
  using small walk len
proof (induction k arbitrary: p x)
  case 0
  from valid have src: "vertex V source" by (simp add: valid_input_def)
  from 0 have "p = []" by simp
  with 0 have "x = source" by simp
  with src \<open>p = []\<close> show ?case by (simp add: init_sint_nth)
next
  case (Suc k)
  from valid have src: "vertex V source" by (simp add: valid_input_def)
  let ?ini = "map sint (init V source)"
  have eir: "edges_in_range (length (roundsI k edges ?ini)) edges"
    using valid_input_edges_in_range [OF valid] by simp
  have smallk: "int k * W < 1000000000"
  proof -
    have "int k * W \<le> int (Suc k) * W"
      using W by (intro mult_right_mono) simp_all
    with Suc.prems(1) show ?thesis by simp
  qed
  show ?case
  proof (cases p rule: rev_cases)
    case Nil
    with Suc.prems(2) have "x = source" by simp
    have "roundsI (Suc k) edges ?ini ! slot source \<le> ?ini ! slot source"
      using src by (intro roundsI_le) (simp add: vertex_slot)
    also have "\<dots> = 0" using src by (simp add: init_sint_nth)
    finally show ?thesis using Nil \<open>x = source\<close> by simp
  next
    case (snoc q e)
    obtain u v w where e: "e = (u, v, w)" by (cases e)
    from Suc.prems(2) snoc e have q: "is_walk edges source q u" and mem: "(u, v, w) \<in> set edges"
      and xv: "x = v"
      by (auto simp: is_walk_append)
    from Suc.prems(3) snoc have lq: "length q \<le> k" by simp
    have IH: "roundsI k edges ?ini ! slot u \<le> weight q"
      using smallk q lq by (rule Suc.IH)
    have "\<bar>weight q\<bar> \<le> int (length q) * W"
      using wb q by (rule weight_bound)
    also have "\<dots> \<le> int k * W"
      using lq W by (intro mult_right_mono) simp_all
    finally have "weight q < 1000000000" using smallk by simp
    with mem eir IH have "fold relaxI edges (roundsI k edges ?ini) ! slot v \<le> weight q + sint w"
      by (intro fold_relaxI_edge)
    then show ?thesis
      using snoc e xv by (simp add: roundsI_Suc_last del: roundsI.simps)
  qed
qed

section \<open>Removing cycles from a walk\<close>

lemma verts_Nil [simp]: "verts x [] = [x]"
  by (simp add: verts_def)

lemma verts_Cons [simp]: "verts x ((u, v, w) # p) = x # verts v p"
  by (simp add: verts_def)

lemma length_verts [simp]: "length (verts x p) = Suc (length p)"
  by (simp add: verts_def)

lemma verts_vertex:
  assumes "\<forall>(u, v, w) \<in> set edges. vertex V u \<and> vertex V v"
    and "vertex V x" and "is_walk edges x p y"
  shows "\<forall>z \<in> set (verts x p). vertex V z"
  using assms(2,3)
proof (induction p arbitrary: x)
  case Nil
  then show ?case by simp
next
  case (Cons e p)
  obtain u v w where e: "e = (u, v, w)" by (cases e)
  from Cons.prems e have mem: "(u, v, w) \<in> set edges" and rest: "is_walk edges v p y"
    by auto
  from assms(1) mem have "vertex V v" by auto
  then have "\<forall>z \<in> set (verts v p). vertex V z"
    using rest by (rule Cons.IH)
  with Cons.prems(1) show ?case by (simp add: e)
qed

lemma distinct_vertices:
  assumes "distinct xs" and "\<forall>x \<in> set xs. vertex V x"
  shows "length xs \<le> nat (sint V)"
proof -
  have inj: "inj_on slot (set xs)"
    using assms(2) by (auto intro!: inj_onI slot_inj)
  with assms(1) have "distinct (map slot xs)"
    by (simp add: distinct_map)
  then have "length xs = card (set (map slot xs))"
    using distinct_card [of "map slot xs"] by simp
  also have "\<dots> \<le> card {..< nat (sint V)}"
    using assms(2) by (intro card_mono) (auto simp: vertex_slot)
  finally show ?thesis by simp
qed

lemma walk_split:
  assumes "is_walk edges a p b" and "verts a p = xs @ y # ys"
  shows "\<exists>p1 p2. p = p1 @ p2 \<and> is_walk edges a p1 y \<and> is_walk edges y p2 b
           \<and> verts y p2 = y # ys \<and> length p1 = length xs"
  using assms
proof (induction xs arbitrary: a p)
  case Nil
  then have "a = y" and "verts y p = y # ys"
    by (simp_all add: verts_def)
  with Nil.prems(1) have "p = [] @ p \<and> is_walk edges a [] y \<and> is_walk edges y p b
           \<and> verts y p = y # ys \<and> length ([] :: edge list) = length ([] :: int32 list)"
    by simp
  then show ?case by blast
next
  case (Cons x xs)
  from Cons.prems(2) have "p \<noteq> []"
    by (auto simp: verts_def)
  then obtain e p' where p: "p = e # p'" by (cases p) auto
  obtain u v w where e: "e = (u, v, w)" by (cases e)
  from Cons.prems p e have ua: "u = a" and mem: "(u, v, w) \<in> set edges"
    and rest: "is_walk edges v p' b" and vs: "verts v p' = xs @ y # ys"
    by auto
  from Cons.IH [OF rest vs] obtain p1 p2 where
    "p' = p1 @ p2" "is_walk edges v p1 y" "is_walk edges y p2 b"
    "verts y p2 = y # ys" "length p1 = length xs"
    by blast
  with ua mem p e have "p = ((u, v, w) # p1) @ p2 \<and> is_walk edges a ((u, v, w) # p1) y
        \<and> is_walk edges y p2 b \<and> verts y p2 = y # ys
        \<and> length ((u, v, w) # p1) = length (x # xs)"
    by simp
  then show ?case by blast
qed

lemma walk_cycle:
  assumes "is_walk edges a p b" and "\<not> distinct (verts a p)"
  shows "\<exists>p1 c p2 y. p = p1 @ c @ p2 \<and> c \<noteq> [] \<and> is_walk edges a p1 y
           \<and> is_walk edges y c y \<and> is_walk edges y p2 b"
proof -
  from assms(2) obtain xs ys zs y where dec: "verts a p = xs @ [y] @ ys @ [y] @ zs"
    using not_distinct_decomp by blast
  then have "verts a p = xs @ y # (ys @ y # zs)" by simp
  from walk_split [OF assms(1) this] obtain p1 p2 where
    p: "p = p1 @ p2" and p1: "is_walk edges a p1 y" and p2: "is_walk edges y p2 b"
    and v2: "verts y p2 = y # (ys @ y # zs)"
    by blast
  from v2 have "verts y p2 = (y # ys) @ y # zs" by simp
  from walk_split [OF p2 this] obtain c p3 where
    c: "p2 = c @ p3" "is_walk edges y c y" "is_walk edges y p3 b" "length c = length (y # ys)"
    by blast
  from c(4) have "c \<noteq> []" by auto
  with p p1 c show ?thesis by blast
qed

text \<open>
  A closed walk of negative weight contains a cycle of negative weight: cut it at a
  vertex it enters twice; one of the two shorter closed walks is negative.
\<close>

lemma closed_walk_cycle:
  assumes "is_walk edges x c x" and "weight c < 0"
  shows "\<exists>y c' p. is_walk edges x p y \<and> cycle edges y c' \<and> weight c' < 0"
  using assms
proof (induction c arbitrary: x rule: length_induct)
  case (1 c)
  show ?case
  proof (cases "distinct (map (\<lambda>(u, v, w). v) c)")
    case True
    from "1.prems"(2) have "c \<noteq> []" by auto
    with True "1.prems" have "is_walk edges x [] x \<and> cycle edges x c \<and> weight c < 0"
      by (simp add: cycle_def)
    then show ?thesis by blast
  next
    case False
    then obtain xs ys zs y where "map (\<lambda>(u, v, w). v) c = xs @ [y] @ ys @ [y] @ zs"
      using not_distinct_decomp by blast
    then have vs: "verts x c = (x # xs) @ y # (ys @ y # zs)"
      by (simp add: verts_def)
    from walk_split [OF "1.prems"(1) vs] obtain p1 p2 where
      c: "c = p1 @ p2" and p1: "is_walk edges x p1 y" and p2: "is_walk edges y p2 x"
      and v2: "verts y p2 = y # (ys @ y # zs)" and l1: "length p1 = length (x # xs)"
      by blast
    from v2 have "verts y p2 = (y # ys) @ y # zs" by simp
    from walk_split [OF p2 this] obtain c2 p3 where
      p2': "p2 = c2 @ p3" and c2: "is_walk edges y c2 y" and p3: "is_walk edges y p3 x"
      and l2: "length c2 = length (y # ys)"
      by blast
    from l1 l2 have ne: "p1 \<noteq> []" "c2 \<noteq> []" by auto
    show ?thesis
    proof (cases "weight c2 < 0")
      case True
      have "length c2 < length c" using c p2' ne by simp
      from "1.IH" [rule_format, OF this c2 True] obtain y' c' p where
        "is_walk edges y p y'" "cycle edges y' c'" "weight c' < 0"
        by blast
      with p1 have "is_walk edges x (p1 @ p) y' \<and> cycle edges y' c' \<and> weight c' < 0"
        by (auto simp: is_walk_append)
      then show ?thesis by blast
    next
      case False
      with "1.prems"(2) have neg: "weight (p1 @ p3) < 0"
        by (simp add: c p2')
      have closed: "is_walk edges x (p1 @ p3) x"
        using p1 p3 by (auto simp: is_walk_append)
      have "length (p1 @ p3) < length c" using c p2' ne by simp
      from "1.IH" [rule_format, OF this closed neg] show ?thesis .
    qed
  qed
qed

lemma negative_cycle_closed_walk:
  "negative_cycle edges source \<longleftrightarrow>
     (\<exists>x c. reachable edges source x \<and> is_walk edges x c x \<and> weight c < 0)"
proof
  assume "negative_cycle edges source"
  then show "\<exists>x c. reachable edges source x \<and> is_walk edges x c x \<and> weight c < 0"
    unfolding negative_cycle_def cycle_def by blast
next
  assume "\<exists>x c. reachable edges source x \<and> is_walk edges x c x \<and> weight c < 0"
  then obtain x c q where q: "is_walk edges source q x" and c: "is_walk edges x c x" "weight c < 0"
    unfolding reachable_def by blast
  from closed_walk_cycle [OF c] obtain y c' p where
    p: "is_walk edges x p y" and c': "cycle edges y c'" "weight c' < 0"
    by blast
  from q p have "is_walk edges source (q @ p) y"
    by (auto simp: is_walk_append)
  then have "reachable edges source y"
    unfolding reachable_def by (rule exI)
  with c' show "negative_cycle edges source"
    unfolding negative_cycle_def by blast
qed

lemma nonnegative_cycles_closed_walk:
  assumes "nonnegative_cycles edges" and "is_walk edges x c x"
  shows "0 \<le> weight c"
proof (rule ccontr)
  assume "\<not> 0 \<le> weight c"
  then have "weight c < 0" by simp
  from closed_walk_cycle [OF assms(2) this] obtain y c' where "cycle edges y c'" "weight c' < 0"
    by blast
  with assms(1) show False
    by (fastforce simp: nonnegative_cycles_def)
qed

lemma walk_shorten:
  assumes valid: "valid_input V edges source"
    and nonneg: "\<not> negative_cycle edges source"
    and walk: "is_walk edges source p x"
  shows "\<exists>q. is_walk edges source q x \<and> length q < nat (sint V) \<and> weight q \<le> weight p"
  using walk
proof (induction p rule: length_induct)
  case (1 p)
  from valid have src: "vertex V source"
    and es: "\<forall>(u, v, w) \<in> set edges. vertex V u \<and> vertex V v"
    by (auto simp: valid_input_def)
  show ?case
  proof (cases "distinct (verts source p)")
    case True
    moreover have "\<forall>z \<in> set (verts source p). vertex V z"
      using es src "1.prems" by (rule verts_vertex)
    ultimately have "length (verts source p) \<le> nat (sint V)"
      by (rule distinct_vertices)
    then have "length p < nat (sint V)" by simp
    with "1.prems" have "is_walk edges source p x \<and> length p < nat (sint V) \<and> weight p \<le> weight p"
      by simp
    then show ?thesis by (rule exI)
  next
    case False
    from walk_cycle [OF "1.prems" False] obtain p1 c p2 y where
      p: "p = p1 @ c @ p2" and c: "c \<noteq> []" and p1: "is_walk edges source p1 y"
      and cy: "is_walk edges y c y" and p2: "is_walk edges y p2 x"
      by blast
    from p1 have ry: "reachable edges source y"
      unfolding reachable_def by (rule exI)
    have wc: "0 \<le> weight c"
    proof (rule ccontr)
      assume "\<not> 0 \<le> weight c"
      then have "reachable edges source y \<and> is_walk edges y c y \<and> weight c < 0"
        using ry cy by simp
      then have "negative_cycle edges source"
        unfolding negative_cycle_closed_walk by blast
      with nonneg show False by simp
    qed
    have short: "is_walk edges source (p1 @ p2) x"
      using p1 p2 by (auto simp: is_walk_append)
    have less: "length (p1 @ p2) < length p"
      using p c by simp
    from "1.IH" [rule_format, OF less short] obtain q where
      q: "is_walk edges source q x" "length q < nat (sint V)" "weight q \<le> weight (p1 @ p2)"
      by blast
    have "weight (p1 @ p2) \<le> weight p"
      using wc by (simp add: p)
    with q(3) have "weight q \<le> weight p" by simp
    with q(1,2) show ?thesis by blast
  qed
qed

section \<open>The flag and negative cycles, for small weights\<close>

lemma bounded_init:
  "bounded 0 (map sint (init V source))"
  unfolding bounded_def
proof (intro allI impI)
  fix i
  assume "i < length (map sint (init V source))"
  then have i: "i < nat (sint V)" by simp
  then have "init V source ! i = 0 \<or> init V source ! i = INF'"
    by (cases "i = slot source") (auto simp: init_def)
  then have "sint (init V source ! i) = 0 \<or> sint (init V source ! i) = 1000000000"
    by auto
  with i show "map sint (init V source) ! i \<le> 1000000000 \<and>
      (map sint (init V source) ! i \<noteq> 1000000000 \<longrightarrow>
       - 0 \<le> map sint (init V source) ! i \<and> map sint (init V source) ! i \<le> 0)"
    by auto
qed

lemma fixpoint_walk:
  assumes fixp: "\<forall>e \<in> set edges. \<not> improvingI d e"
    and b: "bounded B d" and small: "B + total_weight edges < 1000000000"
    and eir: "edges_in_range (length d) edges"
    and walk: "is_walk edges x p y" and sx: "slot x < length d" and fin: "d ! slot x \<noteq> 1000000000"
  shows "slot y < length d \<and> d ! slot y \<noteq> 1000000000 \<and> d ! slot y \<le> d ! slot x + weight p"
  using walk sx fin
proof (induction p arbitrary: x)
  case Nil
  then show ?case by simp
next
  case (Cons e p)
  obtain u v w where e: "e = (u, v, w)" by (cases e)
  from Cons.prems(1) e have ux: "u = x" and mem: "(x, v, w) \<in> set edges" and rest: "is_walk edges v p y"
    by auto
  from eir mem have sv: "slot v < length d"
    by (auto simp: edges_in_range_def slot_def)
  from fixp mem have "\<not> improvingI d (x, v, w)" by blast
  with Cons.prems(3) have le: "d ! slot v \<le> d ! slot x + sint w"
    by (simp add: improvingI_def)
  from b Cons.prems(2,3) have "d ! slot x \<le> B"
    by (simp add: bounded_def)
  moreover from mem have "\<bar>sint w\<bar> \<le> total_weight edges"
    by (rule total_weight_mem)
  ultimately have "d ! slot v < 1000000000"
    using le small by simp
  then have fv: "d ! slot v \<noteq> 1000000000" by simp
  from Cons.IH [OF rest sv fv] le show ?case
    by (simp add: e)
qed

text \<open>
  An edge that still improves after \<open>V - 1\<close> rounds shows a negative cycle: its walk
  would be lighter than every walk of fewer than \<open>V\<close> edges.
\<close>

lemma improving_negative_cycle:
  assumes valid: "valid_input V edges source"
    and wb: "\<forall>(u, v, w) \<in> set edges. \<bar>sint w\<bar> \<le> W" and W: "0 \<le> W"
    and small: "int (nat (sint V - 1)) * W < 1000000000"
    and mem: "(u, v, w) \<in> set edges"
    and imp: "improvingI (roundsI (nat (sint V - 1)) edges (map sint (init V source))) (u, v, w)"
  shows "negative_cycle edges source"
proof (rule ccontr)
  let ?k = "nat (sint V - 1)"
  let ?d = "roundsI ?k edges (map sint (init V source))"
  assume nonneg: "\<not> negative_cycle edges source"
  from valid have src: "vertex V source"
    and es: "\<forall>(u, v, w) \<in> set edges. vertex V u \<and> vertex V v"
    by (auto simp: valid_input_def)
  from imp have fu: "?d ! slot u \<noteq> 1000000000" and lt: "?d ! slot u + sint w < ?d ! slot v"
    by (simp_all add: improvingI_def)
  have wd: "walk_distances V edges source ?d"
    using walk_distances_init [OF src] es by (intro walk_distances_roundsI) simp_all
  from es mem have "vertex V u" by auto
  with wd fu obtain p where p: "is_walk edges source p u" "weight p = ?d ! slot u"
    unfolding walk_distances_def by blast
  from p(1) mem have "is_walk edges source (p @ [(u, v, w)]) v"
    by (rule is_walk_snoc)
  from walk_shorten [OF valid nonneg this] obtain q where
    q: "is_walk edges source q v" "length q < nat (sint V)" "weight q \<le> weight (p @ [(u, v, w)])"
    by blast
  from q(2) have "length q \<le> ?k" by simp
  with valid wb W small q(1) have "?d ! slot v \<le> weight q"
    by (rule roundsI_optimal)
  also have "\<dots> \<le> ?d ! slot u + sint w"
    using q(3) p(2) by simp
  finally show False using lt by simp
qed

lemma flag_iff_negative_cycle:
  assumes valid: "valid_input V edges source"
    and small: "small_weights V edges"
  shows "(\<exists>e \<in> set edges. improvingI (roundsI (nat (sint V - 1)) edges (map sint (init V source))) e)
     \<longleftrightarrow> negative_cycle edges source"
proof -
  let ?k = "nat (sint V - 1)"
  let ?ini = "map sint (init V source)"
  let ?d = "roundsI ?k edges ?ini"
  let ?tw = "total_weight edges"
  from valid have V: "0 < sint V" and src: "vertex V source"
    by (auto simp: valid_input_def)
  have tw: "0 \<le> ?tw" by (rule total_weight_nonneg)
  have wb: "\<forall>(u, v, w) \<in> set edges. \<bar>sint w\<bar> \<le> ?tw"
    using total_weight_mem by blast
  have "int ?k + 1 = sint V" using V by simp
  then have "(int ?k + 1) * ?tw < 1000000000"
    using small by (simp add: small_weights_def)
  then have ktw: "int ?k * ?tw + ?tw < 1000000000"
    by (simp add: algebra_simps)
  with tw have ktw': "int ?k * ?tw < 1000000000" by simp
  have eir0: "edges_in_range (length ?ini) edges"
    using valid_input_edges_in_range [OF valid] by simp
  have eir: "edges_in_range (length ?d) edges"
    using valid_input_edges_in_range [OF valid] by simp
  have bd: "bounded (0 + int ?k * ?tw) ?d"
    using bounded_init eir0 by (rule bounded_roundsI)
  have ss: "slot source < length ?d"
    using src by (simp add: vertex_slot)
  have "?d ! slot source \<le> ?ini ! slot source"
    using ss by (intro roundsI_le) simp
  also have "\<dots> = 0" using src by (simp add: init_sint_nth)
  finally have fs: "?d ! slot source \<noteq> 1000000000" by simp
  show ?thesis
  proof
    assume "\<exists>e \<in> set edges. improvingI ?d e"
    then obtain u v w where "(u, v, w) \<in> set edges" "improvingI ?d (u, v, w)"
      by auto
    with valid wb tw ktw' show "negative_cycle edges source"
      by (rule improving_negative_cycle)
  next
    assume "negative_cycle edges source"
    then obtain x c p where p: "is_walk edges source p x" and c: "is_walk edges x c x"
      and neg: "weight c < 0"
      by (auto simp: negative_cycle_closed_walk reachable_def)
    show "\<exists>e \<in> set edges. improvingI ?d e"
    proof (rule ccontr)
      assume "\<not> (\<exists>e \<in> set edges. improvingI ?d e)"
      then have fixp: "\<forall>e \<in> set edges. \<not> improvingI ?d e" by simp
      have small': "0 + int ?k * ?tw + ?tw < 1000000000" using ktw by simp
      from fixpoint_walk [OF fixp bd small' eir p ss fs]
      have sx: "slot x < length ?d" and fx: "?d ! slot x \<noteq> 1000000000"
        by simp_all
      from fixpoint_walk [OF fixp bd small' eir c sx fx]
      have "?d ! slot x \<le> ?d ! slot x + weight c" by simp
      with neg show False by simp
    qed
  qed
qed

lemma bellmanFord_small_weights:
  assumes valid: "valid_input V edges source"
    and small: "small_weights V edges"
  shows "\<exists>dist. bellmanFord V edges source dist0 = Inr (negative_cycle edges source, dist)"
proof -
  let ?k = "nat (sint V - 1)"
  let ?tw = "total_weight edges"
  obtain dist where d: "relaxRounds ?k edges (init V source) = Inr dist"
    and len: "length dist = nat (sint V)"
    and run: "bellmanFord V edges source dist0 =
       Inr ((\<exists>(u, v, w) \<in> set edges. dist ! slot u \<noteq> INF' \<and> dist ! slot u + w <s dist ! slot v), dist)"
    using bellmanFord_valid [OF valid] by blast
  from valid have V: "0 < sint V" by (simp add: valid_input_def)
  have tw: "0 \<le> ?tw" by (rule total_weight_nonneg)
  have "int ?k + 1 = sint V" using V by simp
  then have "(int ?k + 1) * ?tw < 1000000000"
    using small by (simp add: small_weights_def)
  then have ktw: "0 + int ?k * ?tw + ?tw < 1000000000"
    by (simp add: algebra_simps)
  with tw have ktw': "0 + int ?k * ?tw < 1000000000" by simp
  have eir0: "edges_in_range (length (init V source)) edges"
    using valid_input_edges_in_range [OF valid] by simp
  have eir0': "edges_in_range (length (map sint (init V source))) edges"
    using eir0 by simp
  from relaxRounds_sint [OF eir0 bounded_init ktw'] d
  have m: "map sint dist = roundsI ?k edges (map sint (init V source))"
    by simp
  have bd: "bounded (0 + int ?k * ?tw) (map sint dist)"
    unfolding m using bounded_init eir0' by (rule bounded_roundsI)
  have eir: "edges_in_range (length dist) edges"
    using eir0 len by simp
  have edge: "(dist ! slot u \<noteq> INF' \<and> dist ! slot u + w <s dist ! slot v) \<longleftrightarrow>
      improvingI (map sint dist) (u, v, w)" if mem: "(u, v, w) \<in> set edges" for u v w
  proof -
    from eir mem have u: "in_range dist u" and v: "in_range dist v" and su: "slot u < length dist"
      by (auto simp: edges_in_range_def in_range_def slot_def)
    from mem have "\<bar>sint w\<bar> \<le> ?tw" by (rule total_weight_mem)
    with ktw have w: "0 + int ?k * ?tw + \<bar>sint w\<bar> < 1000000000" by simp
    show ?thesis
      using u v bounded_nowrap [OF bd su w] by (rule improves_sint)
  qed
  have "(\<exists>(u, v, w) \<in> set edges. dist ! slot u \<noteq> INF' \<and> dist ! slot u + w <s dist ! slot v)
      \<longleftrightarrow> (\<exists>e \<in> set edges. improvingI (map sint dist) e)"
    using edge by fastforce
  also have "\<dots> \<longleftrightarrow> negative_cycle edges source"
    unfolding m using valid small by (rule flag_iff_negative_cycle)
  finally show ?thesis using run by simp
qed

lemma nonnegative_weights_walk:
  assumes "\<forall>(u, v, w) \<in> set edges. 0 \<le> sint w" and "is_walk edges x p y"
  shows "0 \<le> weight p"
  using assms(2)
proof (induction p arbitrary: x)
  case Nil
  then show ?case by simp
next
  case (Cons e p)
  obtain u v w where e: "e = (u, v, w)" by (cases e)
  from Cons.prems e have mem: "(u, v, w) \<in> set edges" and rest: "is_walk edges v p y"
    by auto
  from assms(1) mem have "0 \<le> sint w" by auto
  moreover from rest have "0 \<le> weight p" by (rule Cons.IH)
  ultimately show ?case by (simp add: e)
qed

lemma nonnegative_weights_cycles:
  "\<forall>(u, v, w) \<in> set edges. 0 \<le> sint w \<Longrightarrow> nonnegative_cycles edges"
  unfolding nonnegative_cycles_def cycle_def using nonnegative_weights_walk by blast

lemma nonnegative_cycles_not_negative_cycle:
  "nonnegative_cycles edges \<Longrightarrow> \<not> negative_cycle edges source"
  by (fastforce simp: nonnegative_cycles_def negative_cycle_def)

section \<open>Without a negative cycle, moderate weights are enough\<close>

lemma max_weight_nonneg: "0 \<le> max_weight es"
  by (induction es) (auto simp: max_weight_def)

lemma max_weight_mem: "(u, v, w) \<in> set es \<Longrightarrow> \<bar>sint w\<bar> \<le> max_weight es"
  by (induction es) (auto simp: max_weight_def)

lemma max_weight_le_total: "max_weight es \<le> total_weight es"
proof (induction es)
  case Nil
  then show ?case by (simp add: max_weight_def total_weight_def)
next
  case (Cons e es)
  obtain u v w where e: "e = (u, v, w)" by (cases e)
  have "max_weight (e # es) = max \<bar>sint w\<bar> (max_weight es)"
    by (simp add: e max_weight_def)
  with Cons total_weight_nonneg [of es] show ?case
    by (simp add: e total_weight_Cons)
qed

lemma walk_inv_init:
  assumes "vertex V source"
  shows "walk_inv V edges source (map sint (init V source))"
  using bounded_init [of V source] walk_distances_init [OF assms, of edges]
  by (simp add: walk_inv_def bounded_def)

lemma walk_inv_relaxI:
  assumes "walk_inv V edges source d"
    and "(u, v, w) \<in> set edges" and "vertex V u" and "vertex V v"
  shows "walk_inv V edges source (relaxI (u, v, w) d)"
proof -
  from assms(1) have len: "length d = nat (sint V)" and ub: "\<forall>i < length d. d ! i \<le> 1000000000"
    and wd: "walk_distances V edges source d"
    by (simp_all add: walk_inv_def)
  have "relaxI (u, v, w) d ! i \<le> 1000000000" if "i < length d" for i
    using relaxI_le [OF that, of "(u, v, w)"] ub that by fastforce
  moreover have "walk_distances V edges source (relaxI (u, v, w) d)"
    using wd assms(2,3,4) len by (rule walk_distances_relaxI)
  ultimately show ?thesis
    using len by (simp add: walk_inv_def)
qed

lemma walk_inv_lower:
  assumes valid: "valid_input V edges source"
    and nonneg: "\<not> negative_cycle edges source"
    and wb: "\<forall>(u, v, w) \<in> set edges. \<bar>sint w\<bar> \<le> W" and W: "0 \<le> W"
    and inv: "walk_inv V edges source d"
    and x: "vertex V x" "d ! slot x \<noteq> 1000000000"
  shows "- (int (nat (sint V - 1)) * W) \<le> d ! slot x"
proof -
  from inv x obtain p where p: "is_walk edges source p x" "weight p = d ! slot x"
    unfolding walk_inv_def walk_distances_def by blast
  from walk_shorten [OF valid nonneg p(1)] obtain q where
    q: "is_walk edges source q x" "length q < nat (sint V)" "weight q \<le> weight p"
    by blast
  have "\<bar>weight q\<bar> \<le> int (length q) * W"
    using wb q(1) by (rule weight_bound)
  also have "\<dots> \<le> int (nat (sint V - 1)) * W"
  proof (rule mult_right_mono)
    show "int (length q) \<le> int (nat (sint V - 1))" using q(2) by auto
    show "0 \<le> W" by (rule W)
  qed
  finally show ?thesis using q(3) p(2) by simp
qed

lemma walk_inv_nowrap:
  assumes valid: "valid_input V edges source"
    and nonneg: "\<not> negative_cycle edges source"
    and wb: "\<forall>(u, v, w) \<in> set edges. \<bar>sint w\<bar> \<le> W" and W: "0 \<le> W"
    and small: "sint V * W < 1000000000"
    and inv: "walk_inv V edges source (map sint dist)"
    and mem: "(u, v, w) \<in> set edges"
    and fin: "dist ! slot u \<noteq> INF'"
  shows "- 2147483648 \<le> sint (dist ! slot u) + sint w \<and> sint (dist ! slot u) + sint w < 2147483648"
proof -
  from valid mem have V: "0 < sint V" and u: "vertex V u"
    by (auto simp: valid_input_def)
  from inv have len: "length dist = nat (sint V)" and ub: "\<forall>i < length dist. sint (dist ! i) \<le> 1000000000"
    by (auto simp: walk_inv_def)
  from u len have su: "slot u < length dist" by (simp add: vertex_slot)
  from fin have "sint (dist ! slot u) \<noteq> 1000000000" by (simp add: INF'_iff)
  with su have "map sint dist ! slot u \<noteq> 1000000000" by simp
  from walk_inv_lower [OF valid nonneg wb W inv u this] su
  have lo: "- (int (nat (sint V - 1)) * W) \<le> sint (dist ! slot u)" by simp
  from ub su have hi: "sint (dist ! slot u) \<le> 1000000000" by simp
  from wb mem have w: "\<bar>sint w\<bar> \<le> W" by auto
  have "int (nat (sint V - 1)) + 1 = sint V" using V by simp
  then have "(int (nat (sint V - 1)) + 1) * W < 1000000000"
    using small by simp
  then have kw: "int (nat (sint V - 1)) * W + W < 1000000000"
    by (simp add: algebra_simps)
  have "0 \<le> int (nat (sint V - 1)) * W" using W by simp
  with kw have "W < 1000000000" by simp
  with lo hi w kw show ?thesis by auto
qed

lemma relaxEdges_sint_walk:
  assumes valid: "valid_input V edges source"
    and nonneg: "\<not> negative_cycle edges source"
    and wb: "\<forall>(u, v, w) \<in> set edges. \<bar>sint w\<bar> \<le> W" and W: "0 \<le> W"
    and small: "sint V * W < 1000000000"
    and sub: "set es \<subseteq> set edges"
    and inv: "walk_inv V edges source (map sint dist)"
  shows "\<exists>dist'. relaxEdges es dist = Inr dist' \<and> map sint dist' = fold relaxI es (map sint dist)
           \<and> walk_inv V edges source (map sint dist')"
  using sub inv
proof (induction es arbitrary: dist)
  case Nil
  then show ?case by simp
next
  case (Cons e es)
  obtain u v w where e: "e = (u, v, w)" by (cases e)
  from Cons.prems(1) e have mem: "(u, v, w) \<in> set edges" and sub': "set es \<subseteq> set edges"
    by auto
  from valid mem have uv: "vertex V u" "vertex V v"
    by (auto simp: valid_input_def)
  from Cons.prems(2) have len: "length dist = nat (sint V)"
    by (simp add: walk_inv_def)
  with uv have ir: "in_range dist u" "in_range dist v"
    by (simp_all add: in_range_vertex)
  obtain d1 where d1: "relax (u, v, w) dist = Inr d1"
    and m1: "map sint d1 = relaxI (u, v, w) (map sint dist)"
    using relax_sint [OF ir] walk_inv_nowrap [OF valid nonneg wb W small Cons.prems(2) mem]
    by blast
  have "walk_inv V edges source (map sint d1)"
    unfolding m1 using Cons.prems(2) mem uv by (rule walk_inv_relaxI)
  from Cons.IH [OF sub' this] obtain d2 where "relaxEdges es d1 = Inr d2"
    "map sint d2 = fold relaxI es (map sint d1)" "walk_inv V edges source (map sint d2)"
    by blast
  with d1 m1 show ?case by (simp add: e)
qed

lemma relaxRounds_sint_walk:
  assumes valid: "valid_input V edges source"
    and nonneg: "\<not> negative_cycle edges source"
    and wb: "\<forall>(u, v, w) \<in> set edges. \<bar>sint w\<bar> \<le> W" and W: "0 \<le> W"
    and small: "sint V * W < 1000000000"
    and inv: "walk_inv V edges source (map sint dist)"
  shows "\<exists>dist'. relaxRounds n edges dist = Inr dist' \<and> map sint dist' = roundsI n edges (map sint dist)
           \<and> walk_inv V edges source (map sint dist')"
  using inv
proof (induction n arbitrary: dist)
  case 0
  then show ?case by simp
next
  case (Suc n)
  have "set edges \<subseteq> set edges" by simp
  from relaxEdges_sint_walk [OF valid nonneg wb W small this Suc.prems] obtain d1 where
    d1: "relaxEdges edges dist = Inr d1" and m1: "map sint d1 = fold relaxI edges (map sint dist)"
    and i1: "walk_inv V edges source (map sint d1)"
    by blast
  from Suc.IH [OF i1] obtain d2 where "relaxRounds n edges d1 = Inr d2"
    "map sint d2 = roundsI n edges (map sint d1)" "walk_inv V edges source (map sint d2)"
    by blast
  with d1 m1 show ?case by simp
qed

lemma bellmanFord_no_negative_cycle:
  assumes valid: "valid_input V edges source"
    and nonneg: "\<not> negative_cycle edges source"
    and small: "moderate_weights V edges"
  shows "\<exists>dist. bellmanFord V edges source dist0 = Inr (False, dist)"
proof -
  let ?k = "nat (sint V - 1)"
  let ?W = "max_weight edges"
  obtain dist where d: "relaxRounds ?k edges (init V source) = Inr dist"
    and run: "bellmanFord V edges source dist0 =
       Inr ((\<exists>(u, v, w) \<in> set edges. dist ! slot u \<noteq> INF' \<and> dist ! slot u + w <s dist ! slot v), dist)"
    using bellmanFord_valid [OF valid] by blast
  from valid have V: "0 < sint V" and src: "vertex V source"
    by (auto simp: valid_input_def)
  have W: "0 \<le> ?W" by (rule max_weight_nonneg)
  have wb: "\<forall>(u, v, w) \<in> set edges. \<bar>sint w\<bar> \<le> ?W"
    using max_weight_mem by blast
  from small have sm: "sint V * ?W < 1000000000"
    by (simp add: moderate_weights_def)
  have "int ?k * ?W \<le> sint V * ?W"
  proof (rule mult_right_mono)
    show "int ?k \<le> sint V" using V by simp
    show "0 \<le> ?W" by (rule W)
  qed
  with sm have ksm: "int ?k * ?W < 1000000000" by simp
  from relaxRounds_sint_walk [OF valid nonneg wb W sm walk_inv_init [OF src], of ?k]
  obtain dist' where d': "relaxRounds ?k edges (init V source) = Inr dist'"
    and m': "map sint dist' = roundsI ?k edges (map sint (init V source))"
    and inv': "walk_inv V edges source (map sint dist')"
    by blast
  from d d' have "dist' = dist" by simp
  with m' inv' have m: "map sint dist = roundsI ?k edges (map sint (init V source))"
    and inv: "walk_inv V edges source (map sint dist)"
    by blast+
  have "\<not> (dist ! slot u \<noteq> INF' \<and> dist ! slot u + w <s dist ! slot v)"
    if mem: "(u, v, w) \<in> set edges" for u v w
  proof
    assume imp: "dist ! slot u \<noteq> INF' \<and> dist ! slot u + w <s dist ! slot v"
    from valid mem have uv: "vertex V u" "vertex V v"
      by (auto simp: valid_input_def)
    from inv have len: "length dist = nat (sint V)"
      by (simp add: walk_inv_def)
    with uv have ir: "in_range dist u" "in_range dist v"
      by (simp_all add: in_range_vertex)
    have "(dist ! slot u \<noteq> INF' \<and> dist ! slot u + w <s dist ! slot v) \<longleftrightarrow>
        improvingI (map sint dist) (u, v, w)"
      using ir walk_inv_nowrap [OF valid nonneg wb W sm inv mem] by (rule improves_sint)
    with imp have "improvingI (roundsI ?k edges (map sint (init V source))) (u, v, w)"
      by (simp add: m)
    with valid wb W ksm mem have "negative_cycle edges source"
      by (rule improving_negative_cycle)
    with nonneg show False by simp
  qed
  then have "\<not> (\<exists>(u, v, w) \<in> set edges. dist ! slot u \<noteq> INF' \<and> dist ! slot u + w <s dist ! slot v)"
    by blast
  with run show ?thesis by simp
qed

section \<open>The claims\<close>

text \<open>
  \<^bold>\<open>C1\<close> (the flag), as amended. On a valid input \<open>bellmanFord\<close> returns \<open>true\<close> if and
  only if, after the \<open>V - 1\<close> relaxation rounds, some edge \<open>(u, v, w)\<close> still has
  \<open>dist[u] != INF\<close> and \<open>dist[u] + w < dist[v]\<close>. When moreover \<open>V\<close> times the sum of
  the absolute weights is below \<open>INF\<close>, this is the case if and only if a negative cycle
  is reachable from the source.
\<close>

theorem flag_iff_improving_edge:
  assumes "valid_input V edges source"
  shows "\<exists>dist flag.
           relaxRounds (nat (sint V - 1)) edges (init V source) = Inr dist
           \<and> bellmanFord V edges source dist0 = Inr (flag, dist)
           \<and> (flag \<longleftrightarrow>
                (\<exists>(u, v, w) \<in> set edges. dist ! slot u \<noteq> INF' \<and> dist ! slot u + w <s dist ! slot v))
           \<and> (small_weights V edges \<longrightarrow>
                (flag \<longleftrightarrow> negative_cycle edges source))"
proof -
  obtain dist where d: "relaxRounds (nat (sint V - 1)) edges (init V source) = Inr dist"
    and run: "bellmanFord V edges source dist0 =
       Inr ((\<exists>(u, v, w) \<in> set edges. dist ! slot u \<noteq> INF' \<and> dist ! slot u + w <s dist ! slot v), dist)"
    using bellmanFord_valid [OF assms] by blast
  have "(\<exists>(u, v, w) \<in> set edges. dist ! slot u \<noteq> INF' \<and> dist ! slot u + w <s dist ! slot v)
      \<longleftrightarrow> negative_cycle edges source" if "small_weights V edges"
    using bellmanFord_small_weights [OF assms that, of dist0] run by simp
  with d run show ?thesis by blast
qed

theorem flag_iff_improving_edge_witness:
  "valid_input 3 [(0,1,-1), (1,2,-2), (2,0,-3)] 0
   \<and> small_weights 3 [(0,1,-1), (1,2,-2), (2,0,-3)]
   \<and> relaxRounds (nat (sint (3 :: int32) - 1)) [(0,1,-1), (1,2,-2), (2,0,-3)] (init 3 0) = Inr [-12, -7, -9]
   \<and> bellmanFord 3 [(0,1,-1), (1,2,-2), (2,0,-3)] 0 [] = Inr (True, [-12, -7, -9])
   \<and> [-12, -7, -9 :: int32] ! slot 0 \<noteq> INF'
   \<and> [-12, -7, -9 :: int32] ! slot 0 + (-1) <s [-12, -7, -9] ! slot 1
   \<and> negative_cycle [(0,1,-1), (1,2,-2), (2,0,-3)] 0"
proof -
  let ?E = "[(0,1,-1), (1,2,-2), (2,0,-3)] :: edge list"
  have v: "valid_input 3 ?E 0"
    by (simp add: valid_input_def vertex_def)
  have s: "small_weights 3 ?E"
    by (simp add: small_weights_def total_weight_def)
  have r: "bellmanFord 3 ?E 0 [] = Inr (True, [-12, -7, -9])"
    by code_simp
  have e: "[-12, -7, -9 :: int32] ! slot 0 \<noteq> INF'
      \<and> [-12, -7, -9 :: int32] ! slot 0 + (-1) <s [-12, -7, -9] ! slot 1"
    by (simp add: slot_def INF'_def word_sless_alt)
  from flag_iff_improving_edge [OF v, of "[]"] r s v e show ?thesis
    by auto
qed

text \<open>
  Without the bound the equivalence fails: an edge of weight \<open>INF\<close> leaves its target
  at \<open>INF\<close>, so the negative cycle behind it is never seen.
\<close>

theorem flag_without_negative_cycle_counterexample:
  "valid_input 3 [(0,1,1000000000), (1,2,-1), (2,1,-1)] 0
   \<and> negative_cycle [(0,1,1000000000), (1,2,-1), (2,1,-1)] 0
   \<and> bellmanFord 3 [(0,1,1000000000), (1,2,-1), (2,1,-1)] 0 [] = Inr (False, [0, INF', INF'])"
proof -
  let ?E = "[(0,1,1000000000), (1,2,-1), (2,1,-1)] :: edge list"
  have v: "valid_input 3 ?E 0"
    by (simp add: valid_input_def vertex_def)
  have "is_walk ?E 0 [(0,1,1000000000)] 1" by simp
  then have "reachable ?E 0 1"
    unfolding reachable_def by (rule exI)
  moreover have "cycle ?E 1 [(1,2,-1), (2,1,-1)] \<and> weight [(1,2,-1), (2,1,-1) :: edge] < 0"
    by (simp add: cycle_def)
  ultimately have n: "negative_cycle ?E 0"
    unfolding negative_cycle_def by blast
  have r: "bellmanFord 3 ?E 0 [] = Inr (False, [0, INF', INF'])"
    by code_simp
  from v n r show ?thesis by simp
qed

text \<open>
  \<^bold>\<open>C2\<close> (scenario A). For \<open>V = 5\<close>, the eight edges \<open>(0,1,-1), (0,2,4), (1,2,3),
  (1,3,2), (1,4,2), (3,2,5), (3,1,1), (4,3,-3)\<close> in this order and \<open>source = 0\<close>,
  \<open>bellmanFord\<close> returns \<open>false\<close> and leaves \<open>dist = [0, -1, 2, -2, 1]\<close>, whatever the
  vector held before the call.
\<close>

theorem scenario_A:
  "bellmanFord 5 [(0,1,-1), (0,2,4), (1,2,3), (1,3,2), (1,4,2), (3,2,5), (3,1,1), (4,3,-3)] 0 dist0
     = Inr (False, [0, -1, 2, -2, 1])"
  by code_simp

text \<open>
  \<^bold>\<open>C3\<close> (relaxed fixed point), as amended. On a valid input on which \<open>bellmanFord\<close>
  returns \<open>false\<close>, every edge \<open>(u, v, w)\<close> whose \<open>dist[u]\<close> is not \<open>INF\<close> has
  \<open>dist[v] <= dist[u] + w\<close> with the sum taken as the program takes it, in the
  wrapping arithmetic of \<open>int\<close>; and it has \<open>dist[v] <= dist[u] + w\<close> in the integers
  whenever the sum is not below the least \<open>int\<close>, \<open>-2147483648\<close> (a sum above the
  greatest \<open>int\<close> is above every \<open>dist[v]\<close>).
\<close>

theorem relaxed_fixed_point:
  assumes "valid_input V edges source"
    and "bellmanFord V edges source dist0 = Inr (False, dist)"
    and "(u, v, w) \<in> set edges"
    and "dist ! slot u \<noteq> INF'"
  shows "dist ! slot v \<le>s dist ! slot u + w
    \<and> (- 2147483648 \<le> sint (dist ! slot u) + sint w \<longrightarrow>
         sint (dist ! slot v) \<le> sint (dist ! slot u) + sint w)"
proof -
  obtain dist' where
    "bellmanFord V edges source dist0 =
       Inr ((\<exists>(u, v, w) \<in> set edges. dist' ! slot u \<noteq> INF' \<and> dist' ! slot u + w <s dist' ! slot v), dist')"
    using bellmanFord_valid [OF assms(1)] by blast
  with assms(2) have
    "\<not> (\<exists>(u, v, w) \<in> set edges. dist ! slot u \<noteq> INF' \<and> dist ! slot u + w <s dist ! slot v)"
    by auto
  with assms(3,4) have "\<not> dist ! slot u + w <s dist ! slot v"
    by blast
  then have le: "sint (dist ! slot v) \<le> sint (dist ! slot u + w)"
    by (simp add: word_sless_alt)
  then have first: "dist ! slot v \<le>s dist ! slot u + w"
    by (simp add: word_sle_eq)
  have second: "sint (dist ! slot v) \<le> sint (dist ! slot u) + sint w"
    if lo: "- 2147483648 \<le> sint (dist ! slot u) + sint w"
  proof (cases "sint (dist ! slot u) + sint w < 2147483648")
    case True
    with lo have "sint (dist ! slot u + w) = sint (dist ! slot u) + sint w"
      by (simp add: sint_word_ariths signed_take_bit_int_eq_self)
    with le show ?thesis by simp
  next
    case False
    moreover have "sint (dist ! slot v) < 2147483648"
      using sint_lt [of "dist ! slot v"] by simp
    ultimately show ?thesis by simp
  qed
  from first second show ?thesis by blast
qed

theorem relaxed_fixed_point_witness:
  "valid_input 5 [(0,1,-1), (0,2,4), (1,2,3), (1,3,2), (1,4,2), (3,2,5), (3,1,1), (4,3,-3)] 0
   \<and> bellmanFord 5 [(0,1,-1), (0,2,4), (1,2,3), (1,3,2), (1,4,2), (3,2,5), (3,1,1), (4,3,-3)] 0 []
       = Inr (False, [0, -1, 2, -2, 1])
   \<and> [0, -1, 2, -2, 1 :: int32] ! slot 4 \<noteq> INF'
   \<and> [0, -1, 2, -2, 1 :: int32] ! slot 3 \<le>s [0, -1, 2, -2, 1] ! slot 4 + (-3)
   \<and> sint ([0, -1, 2, -2, 1 :: int32] ! slot 3) \<le> sint ([0, -1, 2, -2, 1 :: int32] ! slot 4) + sint (-3 :: int32)"
proof -
  let ?E = "[(0,1,-1), (0,2,4), (1,2,3), (1,3,2), (1,4,2), (3,2,5), (3,1,1), (4,3,-3)] :: edge list"
  have v: "valid_input 5 ?E 0"
    by (simp add: valid_input_def vertex_def)
  have r: "bellmanFord 5 ?E 0 [] = Inr (False, [0, -1, 2, -2, 1])"
    by code_simp
  have e: "(4, 3, -3) \<in> set ?E" by simp
  have f: "[0, -1, 2, -2, 1 :: int32] ! slot 4 \<noteq> INF'"
    by (simp add: slot_def INF'_def)
  have lo: "- 2147483648 \<le> sint ([0, -1, 2, -2, 1 :: int32] ! slot 4) + sint (-3 :: int32)"
    by (simp add: slot_def)
  from relaxed_fixed_point [OF v r e f] lo v r f show ?thesis
    by blast
qed

text \<open>
  In the integers and without the condition the inequality fails: behind an edge of
  weight \<open>-2147483648\<close> the sum \<open>dist[u] + w\<close> falls below the least \<open>int\<close> and wraps
  around to the greatest, the target stays at \<open>INF\<close>, and the call returns \<open>false\<close>.
\<close>

theorem relaxed_fixed_point_underflow_counterexample:
  "valid_input 3 [(0,1,-2147483648), (1,2,-1)] 0
   \<and> bellmanFord 3 [(0,1,-2147483648), (1,2,-1)] 0 [] = Inr (False, [0, -2147483648, INF'])
   \<and> (1, 2, -1) \<in> set [(0,1,-2147483648), (1,2,-1) :: edge]
   \<and> [0, -2147483648, INF'] ! slot 1 \<noteq> INF'
   \<and> \<not> sint ([0, -2147483648, INF'] ! slot 2)
          \<le> sint ([0, -2147483648, INF'] ! slot 1) + sint (-1 :: int32)"
proof -
  let ?E = "[(0,1,-2147483648), (1,2,-1)] :: edge list"
  have v: "valid_input 3 ?E 0"
    by (simp add: valid_input_def vertex_def)
  have r: "bellmanFord 3 ?E 0 [] = Inr (False, [0, -2147483648, INF'])"
    by code_simp
  have f: "[0, -2147483648, INF'] ! slot 1 \<noteq> INF'
      \<and> \<not> sint ([0, -2147483648, INF'] ! slot 2)
            \<le> sint ([0, -2147483648, INF'] ! slot 1) + sint (-1 :: int32)"
    by (simp add: slot_def INF'_def)
  from v r f show ?thesis by simp
qed

text \<open>
  \<^bold>\<open>C4\<close> (unreachable vertices). On a valid input the call returns, and every vertex
  with no walk from the source along the edges ends with \<open>dist = INF\<close>. No edge with
  such a vertex at either end passes the test of the verification pass, so none of them
  sets the flag.
\<close>

theorem unreachable_stays_INF:
  assumes "valid_input V edges source"
  shows "\<exists>flag dist.
           bellmanFord V edges source dist0 = Inr (flag, dist)
           \<and> (\<forall>x. vertex V x \<and> \<not> reachable edges source x \<longrightarrow> dist ! slot x = INF')
           \<and> (\<forall>(u, v, w) \<in> set edges.
                 \<not> reachable edges source u \<or> \<not> reachable edges source v \<longrightarrow>
                 \<not> (dist ! slot u \<noteq> INF' \<and> dist ! slot u + w <s dist ! slot v))"
proof -
  obtain dist where d: "relaxRounds (nat (sint V - 1)) edges (init V source) = Inr dist"
    and run: "bellmanFord V edges source dist0 =
       Inr ((\<exists>(u, v, w) \<in> set edges. dist ! slot u \<noteq> INF' \<and> dist ! slot u + w <s dist ! slot v), dist)"
    using bellmanFord_valid [OF assms] by blast
  from assms have src: "vertex V source" and es: "\<forall>(u, v, w) \<in> set edges. vertex V u \<and> vertex V v"
    by (auto simp: valid_input_def)
  have inv: "finite_reachable V edges source dist"
    using finite_reachable_relaxRounds [OF finite_reachable_init [OF src] es d] .
  have a: "\<forall>x. vertex V x \<and> \<not> reachable edges source x \<longrightarrow> dist ! slot x = INF'"
    using inv by (auto simp: finite_reachable_def)
  have b: "\<not> (dist ! slot u \<noteq> INF' \<and> dist ! slot u + w <s dist ! slot v)"
    if e: "(u, v, w) \<in> set edges" and nr: "\<not> reachable edges source u \<or> \<not> reachable edges source v"
    for u v w
  proof
    assume imp: "dist ! slot u \<noteq> INF' \<and> dist ! slot u + w <s dist ! slot v"
    from es e have "vertex V u" by auto
    with inv imp have "reachable edges source u" by (simp add: finite_reachable_def)
    moreover from this e have "reachable edges source v" by (rule reachable_step)
    ultimately show False using nr by simp
  qed
  from run a b show ?thesis by blast
qed

lemma scenario_C_unreachable:
  "is_walk [(0,1,1), (2,3,1)] x p y \<Longrightarrow> x = 0 \<or> x = 1 \<Longrightarrow> y = 0 \<or> y = 1"
  by (induction p arbitrary: x) auto

theorem unreachable_stays_INF_witness:
  "valid_input 4 [(0,1,1), (2,3,1)] 0
   \<and> vertex 4 2 \<and> \<not> reachable [(0,1,1), (2,3,1)] 0 2
   \<and> vertex 4 3 \<and> \<not> reachable [(0,1,1), (2,3,1)] 0 3
   \<and> bellmanFord 4 [(0,1,1), (2,3,1)] 0 [] = Inr (False, [0, 1, INF', INF'])
   \<and> [0, 1, INF', INF'] ! slot 2 = INF'
   \<and> [0, 1, INF', INF'] ! slot 3 = INF'
   \<and> \<not> ([0, 1, INF', INF'] ! slot 2 \<noteq> INF' \<and> [0, 1, INF', INF'] ! slot 2 + 1 <s [0, 1, INF', INF'] ! slot 3)"
proof -
  let ?E = "[(0,1,1), (2,3,1)] :: edge list"
  have v: "valid_input 4 ?E 0"
    by (simp add: valid_input_def vertex_def)
  have r: "bellmanFord 4 ?E 0 [] = Inr (False, [0, 1, INF', INF'])"
    by code_simp
  have x: "vertex 4 2" "vertex 4 3"
    by (simp_all add: vertex_def)
  have n2: "\<not> reachable ?E 0 2" and n3: "\<not> reachable ?E 0 3"
    using scenario_C_unreachable [of 0 _ 2] scenario_C_unreachable [of 0 _ 3]
    by (auto simp: reachable_def)
  have e: "(2, 3, 1) \<in> set ?E" by simp
  from unreachable_stays_INF [OF v, of "[]"] r x n2 n3 e v show ?thesis
    by auto
qed

text \<open>
  \<^bold>\<open>C5\<close> (cycles of weight zero or more), as amended. On a valid input where \<open>V\<close> times
  the largest absolute weight is below \<open>INF\<close> and no cycle has negative weight,
  \<open>bellmanFord\<close> returns \<open>false\<close>. For \<open>V = 3\<close>, the edges \<open>(0,1,0), (1,2,0), (2,0,0)\<close> and
  \<open>source = 0\<close> it returns \<open>false\<close> with \<open>dist = [0, 0, 0]\<close>.
\<close>

theorem nonnegative_cycles_no_report:
  "(valid_input V edges source \<and> moderate_weights V edges \<and> nonnegative_cycles edges \<longrightarrow>
      (\<exists>dist. bellmanFord V edges source dist0 = Inr (False, dist)))
   \<and> bellmanFord 3 [(0,1,0), (1,2,0), (2,0,0)] 0 dist0 = Inr (False, [0, 0, 0])"
proof -
  have "\<exists>dist. bellmanFord V edges source dist0 = Inr (False, dist)"
    if "valid_input V edges source" "moderate_weights V edges" "nonnegative_cycles edges"
    using that(1) nonnegative_cycles_not_negative_cycle [OF that(3)] that(2)
    by (rule bellmanFord_no_negative_cycle)
  moreover have "bellmanFord 3 [(0,1,0), (1,2,0), (2,0,0)] 0 dist0 = Inr (False, [0, 0, 0])"
    by code_simp
  ultimately show ?thesis by blast
qed

theorem nonnegative_cycles_no_report_witness:
  "valid_input 3 [(0,1,0), (1,2,0), (2,0,0)] 0
   \<and> moderate_weights 3 [(0,1,0), (1,2,0), (2,0,0)]
   \<and> nonnegative_cycles [(0,1,0), (1,2,0), (2,0,0)]
   \<and> (\<exists>dist. bellmanFord 3 [(0,1,0), (1,2,0), (2,0,0)] 0 [] = Inr (False, dist))"
proof -
  let ?E = "[(0,1,0), (1,2,0), (2,0,0)] :: edge list"
  have v: "valid_input 3 ?E 0"
    by (simp add: valid_input_def vertex_def)
  have s: "moderate_weights 3 ?E"
    by (simp add: moderate_weights_def max_weight_def)
  have n: "nonnegative_cycles ?E"
    by (rule nonnegative_weights_cycles) simp
  from nonnegative_cycles_no_report [of 3 ?E 0 "[]"] v s n show ?thesis
    by blast
qed

text \<open>
  Without the bound the claim fails: with two positive weights whose sum
  \<open>999999999 + 2147483647\<close> wraps around to a negative \<open>int\<close>, the call returns \<open>true\<close>.
\<close>

theorem overflow_false_report_counterexample:
  "valid_input 2 [(0,1,999999999), (1,0,2147483647)] 0
   \<and> nonnegative_cycles [(0,1,999999999), (1,0,2147483647)]
   \<and> bellmanFord 2 [(0,1,999999999), (1,0,2147483647)] 0 [] = Inr (True, [-1147483650, 999999999])"
proof -
  let ?E = "[(0,1,999999999), (1,0,2147483647)] :: edge list"
  have v: "valid_input 2 ?E 0"
    by (simp add: valid_input_def vertex_def)
  have n: "nonnegative_cycles ?E"
    by (rule nonnegative_weights_cycles) simp
  have r: "bellmanFord 2 ?E 0 [] = Inr (True, [-1147483650, 999999999])"
    by code_simp
  from v n r show ?thesis by simp
qed

text \<open>
  \<^bold>\<open>C6\<close> (negative self-loop), as amended. On a valid input where \<open>V\<close> times the sum of
  the absolute weights is below \<open>INF\<close>, an edge \<open>(u, u, w)\<close> with \<open>w < 0\<close> at a vertex
  \<open>u\<close> that has a walk from the source makes \<open>bellmanFord\<close> return \<open>true\<close>.
\<close>

theorem negative_self_loop_detected:
  assumes "valid_input V edges source" and "small_weights V edges"
    and "(u, u, w) \<in> set edges" and "sint w < 0" and "reachable edges source u"
  shows "\<exists>dist. bellmanFord V edges source dist0 = Inr (True, dist)"
proof -
  from assms(3,4) have "cycle edges u [(u, u, w)] \<and> weight [(u, u, w)] < 0"
    by (simp add: cycle_def)
  with assms(5) have "negative_cycle edges source"
    unfolding negative_cycle_def by blast
  with bellmanFord_small_weights [OF assms(1,2), of dist0] show ?thesis
    by simp
qed

theorem negative_self_loop_detected_witness:
  "valid_input 2 [(0,1,1), (1,1,-1)] 0
   \<and> small_weights 2 [(0,1,1), (1,1,-1)]
   \<and> (1, 1, -1) \<in> set [(0,1,1), (1,1,-1) :: edge]
   \<and> sint (-1 :: int32) < 0
   \<and> reachable [(0,1,1), (1,1,-1)] 0 1
   \<and> bellmanFord 2 [(0,1,1), (1,1,-1)] 0 [] = Inr (True, [0, 0])"
proof -
  let ?E = "[(0,1,1), (1,1,-1)] :: edge list"
  have v: "valid_input 2 ?E 0"
    by (simp add: valid_input_def vertex_def)
  have s: "small_weights 2 ?E"
    by (simp add: small_weights_def total_weight_def)
  have m: "(1, 1, -1) \<in> set ?E" by simp
  have w: "sint (-1 :: int32) < 0" by simp
  have "is_walk ?E 0 [(0,1,1)] 1" by simp
  then have re: "reachable ?E 0 1"
    unfolding reachable_def by (rule exI)
  have r: "bellmanFord 2 ?E 0 [] = Inr (True, [0, 0])"
    by code_simp
  from negative_self_loop_detected [OF v s m w re, of "[]"] v s m w re r show ?thesis
    by simp
qed

text \<open>
  Without the bound the claim fails: behind an edge of weight \<open>INF\<close> the vertex keeps
  \<open>dist = INF\<close> and its negative self-loop is skipped.
\<close>

theorem negative_self_loop_missed_counterexample:
  "valid_input 2 [(0,1,1000000000), (1,1,-1)] 0
   \<and> (1, 1, -1) \<in> set [(0,1,1000000000), (1,1,-1) :: edge]
   \<and> sint (-1 :: int32) < 0
   \<and> reachable [(0,1,1000000000), (1,1,-1)] 0 1
   \<and> bellmanFord 2 [(0,1,1000000000), (1,1,-1)] 0 [] = Inr (False, [0, INF'])"
proof -
  let ?E = "[(0,1,1000000000), (1,1,-1)] :: edge list"
  have v: "valid_input 2 ?E 0"
    by (simp add: valid_input_def vertex_def)
  have "is_walk ?E 0 [(0,1,1000000000)] 1" by simp
  then have re: "reachable ?E 0 1"
    unfolding reachable_def by (rule exI)
  have r: "bellmanFord 2 ?E 0 [] = Inr (False, [0, INF'])"
    by code_simp
  from v re r show ?thesis by simp
qed

text \<open>
  \<^bold>\<open>C7\<close> (invalid input), as amended. \<open>bellmanFord\<close> validates nothing and has no
  \<open>InvalidInput\<close> error. When \<open>V < 0\<close> the call fails before any pass over the edges,
  with the \<open>std::length_error\<close> of \<open>dist.assign\<close>. When \<open>V \<ge> 0\<close> and \<open>source\<close> is
  outside \<open>[0, V)\<close> (always so when \<open>V = 0\<close>), \<open>dist[source] = 0\<close> is an access outside
  the vector: undefined behaviour, and no error is raised.
\<close>

theorem no_input_validation:
  "(sint V < 0 \<longrightarrow>
      bellmanFord V edges source dist0 = Inl LengthError
      \<and> relaxation_passes V edges source = 0 \<and> verification_passes V edges source = 0)
   \<and> (0 \<le> sint V \<and> \<not> vertex V source \<longrightarrow>
      bellmanFord V edges source dist0 = Inl UndefinedBehaviour)"
  by (auto simp: bellmanFord_def assign_def relaxation_passes_def verification_passes_def
      in_range_def vertex_def)

theorem no_input_validation_witness:
  "sint (-1 :: int32) < 0 \<and> bellmanFord (-1) [(0,1,1)] 0 [] = Inl LengthError
   \<and> relaxation_passes (-1) [(0,1,1)] 0 = 0 \<and> verification_passes (-1) [(0,1,1)] 0 = 0
   \<and> 0 \<le> sint (0 :: int32) \<and> \<not> vertex 0 0 \<and> bellmanFord 0 [] 0 [] = Inl UndefinedBehaviour
   \<and> 0 \<le> sint (2 :: int32) \<and> \<not> vertex 2 2 \<and> bellmanFord 2 [(0,1,1)] 2 [] = Inl UndefinedBehaviour"
proof -
  have a: "sint (-1 :: int32) < 0" by simp
  have b: "0 \<le> sint (0 :: int32) \<and> \<not> vertex 0 0" by (simp add: vertex_def)
  have c: "0 \<le> sint (2 :: int32) \<and> \<not> vertex 2 2" by (simp add: vertex_def)
  from no_input_validation [of "-1" "[(0,1,1)]" 0 "[]"] a
    no_input_validation [of 0 "[]" 0 "[]"] b
    no_input_validation [of 2 "[(0,1,1)]" 2 "[]"] c
  show ?thesis by simp
qed

text \<open>
  At \<open>V = 2\<close>, \<open>source = 2\<close> the call raises nothing: it writes outside the vector.
\<close>

theorem invalid_input_counterexample:
  "\<not> vertex 2 2 \<and> bellmanFord 2 [(0,1,1)] 2 [] = Inl UndefinedBehaviour
   \<and> bellmanFord 2 [(0,1,1)] 2 [] \<noteq> Inl LengthError"
  by (simp add: vertex_def bellmanFord_def assign_def in_range_def)

text \<open>
  \<^bold>\<open>C8\<close> (scenario E). For \<open>V = 1\<close>, no edge and \<open>source = 0\<close>, no relaxation round
  runs, and \<open>bellmanFord\<close> returns \<open>false\<close> with \<open>dist = [0]\<close>.
\<close>

theorem scenario_E:
  "bellmanFord 1 [] 0 dist0 = Inr (False, [0]) \<and> relaxation_passes 1 [] 0 = 0"
  by code_simp

text \<open>
  \<^bold>\<open>C9\<close> (termination in \<open>V\<close> passes). On a valid input the loop of lines 30 to 38 ends
  and the function returns, with the result of \<open>bellmanFord\<close>, after \<open>V - 1\<close>
  relaxation passes over the edge list and one verification pass: \<open>V\<close> passes in all.
  Every relaxation pass tests every edge; the verification pass may stop early, and
  tests every edge when the result is \<open>false\<close>.
\<close>

theorem bellmanFord_terminates_in_V_passes:
  assumes "valid_input V edges source"
  shows "\<exists>flag dist t.
           bellmanFord_counted V edges source dist0 = Some (Inr (flag, dist, t))
           \<and> bellmanFord V edges source dist0 = Inr (flag, dist)
           \<and> relaxation_count t = nat (sint V) - 1
           \<and> verification_count t = 1
           \<and> relaxation_count t + verification_count t = nat (sint V)
           \<and> (nat (sint V) - 1) * length edges \<le> test_count t
           \<and> test_count t \<le> nat (sint V) * length edges
           \<and> (\<not> flag \<longrightarrow> test_count t = nat (sint V) * length edges)"
proof -
  from assms have V: "0 < sint V"
    by (simp add: valid_input_def)
  obtain dist where len: "length dist = nat (sint V)"
    and run: "bellmanFord V edges source dist0 =
       Inr ((\<exists>(u, v, w) \<in> set edges. dist ! slot u \<noteq> INF' \<and> dist ! slot u + w <s dist ! slot v), dist)"
    using bellmanFord_valid [OF assms] by blast
  let ?flag = "\<exists>(u, v, w) \<in> set edges. dist ! slot u \<noteq> INF' \<and> dist ! slot u + w <s dist ! slot v"
  let ?t = "\<lparr>relaxation_count = nat (sint V) - 1, verification_count = 1,
             test_count = (nat (sint V) - 1) * length edges + verify_tests edges dist\<rparr>"
  have counted: "bellmanFord_counted V edges source dist0 = Some (Inr (?flag, dist, ?t))"
    using run by (simp add: bellmanFord_counted_eq)
  have pos: "0 < nat (sint V)" using V by simp
  have split: "nat (sint V) * length edges = (nat (sint V) - 1) * length edges + length edges"
    using pos by (cases "nat (sint V)") simp_all
  have upper: "test_count ?t \<le> nat (sint V) * length edges"
    using verify_tests_le [of edges dist] split by simp
  have full: "test_count ?t = nat (sint V) * length edges" if "\<not> ?flag"
  proof -
    have "edges_in_range (length dist) edges"
      using valid_input_edges_in_range [OF assms] len by simp
    then have "verify edges dist = Inr False"
      using that by (simp add: verify_in_range)
    then show ?thesis
      using split by (simp add: verify_tests_False)
  qed
  have "bellmanFord_counted V edges source dist0 = Some (Inr (?flag, dist, ?t))
      \<and> bellmanFord V edges source dist0 = Inr (?flag, dist)
      \<and> relaxation_count ?t = nat (sint V) - 1
      \<and> verification_count ?t = 1
      \<and> relaxation_count ?t + verification_count ?t = nat (sint V)
      \<and> (nat (sint V) - 1) * length edges \<le> test_count ?t
      \<and> test_count ?t \<le> nat (sint V) * length edges
      \<and> (\<not> ?flag \<longrightarrow> test_count ?t = nat (sint V) * length edges)"
    using counted run upper full pos by simp
  then show ?thesis by blast
qed

theorem bellmanFord_terminates_in_V_passes_witness:
  "valid_input 5 [(0,1,-1), (0,2,4), (1,2,3), (1,3,2), (1,4,2), (3,2,5), (3,1,1), (4,3,-3)] 0
   \<and> bellmanFord 5 [(0,1,-1), (0,2,4), (1,2,3), (1,3,2), (1,4,2), (3,2,5), (3,1,1), (4,3,-3)] 0 []
       = Inr (False, [0, -1, 2, -2, 1])
   \<and> (\<exists>t. bellmanFord_counted 5 [(0,1,-1), (0,2,4), (1,2,3), (1,3,2), (1,4,2), (3,2,5), (3,1,1), (4,3,-3)] 0 []
            = Some (Inr (False, [0, -1, 2, -2, 1], t))
          \<and> relaxation_count t = 4 \<and> verification_count t = 1 \<and> test_count t = 40)"
proof -
  let ?E = "[(0,1,-1), (0,2,4), (1,2,3), (1,3,2), (1,4,2), (3,2,5), (3,1,1), (4,3,-3)] :: edge list"
  have v: "valid_input 5 ?E 0"
    by (simp add: valid_input_def vertex_def)
  have r: "bellmanFord 5 ?E 0 [] = Inr (False, [0, -1, 2, -2, 1])"
    by code_simp
  from bellmanFord_terminates_in_V_passes [OF v, of "[]"] r v show ?thesis
    by auto
qed

text \<open>
  \<^bold>\<open>C10\<close> (the incoming vector is ignored). The flag and the final vector do not
  depend on the contents or the length of the vector the caller passes: two calls that
  differ only there have the same outcome, on every input.
\<close>

theorem result_independent_of_incoming_dist:
  "bellmanFord V edges source dist1 = bellmanFord V edges source dist2"
  by (simp add: bellmanFord_def assign_def)

end
